theory Spec2Isabelle
  imports Complex_Main "HOL-Library.Log_Nat" "HOL-Library.Char_ord" "HOL-Library.List_Lexorder"
begin

section \<open>Numbers and their printed form\<close>

text \<open>
  Go's integer division truncates toward zero; \<open>div\<close> of HOL rounds down. The source
  divides \<open>int64\<close> values (\<open>n/div\<close> in \<open>human\<close>), so the quotient is written out.
\<close>

definition quo :: "int \<Rightarrow> int \<Rightarrow> int" where
  "quo a b = sgn a * sgn b * (\<bar>a\<bar> div \<bar>b\<bar>)"

text \<open>\<open>fmt.Sprintf("%d", n)\<close>: the decimal digits, with a minus sign below zero.\<close>

definition digit_char :: "nat \<Rightarrow> char" where
  "digit_char d = ''0123456789'' ! d"

fun dec_digits :: "nat \<Rightarrow> string" where
  "dec_digits n =
     (if n < 10 then [digit_char n] else dec_digits (n div 10) @ [digit_char (n mod 10)])"

declare dec_digits.simps [simp del]

definition sprint_d :: "int \<Rightarrow> string" where
  "sprint_d n = (if n < 0 then CHR ''-'' # dec_digits (nat (- n)) else dec_digits (nat n))"

text \<open>
  \<open>float64(n)\<close> for a positive \<open>int64\<close>: the nearest value with 53 significant bits, ties
  to the even one. The result is again an integer, so it is kept as an \<open>int\<close>.
\<close>

definition float64_of_int :: "int \<Rightarrow> int" where
  "float64_of_int n =
     (let k = bitlen n - 53 in
      if k \<le> 0 then n
      else let u = 2 ^ nat k; q = n div u; r = n mod u
           in (if u < 2 * r \<or> (2 * r = u \<and> odd q) then q + 1 else q) * u)"

text \<open>
  \<open>fmt.Sprintf("%.1f", a/d)\<close> for a quotient \<open>a/d\<close> that the float64 division computes
  exactly (in \<open>human\<close> the divisor is a power of two and nothing overflows): the exact value
  rounded to one decimal, ties to even, which is what Go's \<open>strconv\<close> prints.
\<close>

definition round_half_even :: "int \<Rightarrow> int \<Rightarrow> int" where
  "round_half_even a d =
     (let q = a div d; r = a mod d
      in if d < 2 * r \<or> (2 * r = d \<and> odd q) then q + 1 else q)"

definition fmt_1f :: "int \<Rightarrow> int \<Rightarrow> string" where
  "fmt_1f a d = (let t = round_half_even (10 * a) d
                 in sprint_d (t div 10) @ ''.'' @ sprint_d (t mod 10))"

text \<open>
  The loop of \<open>human\<close>: \<open>for n/div >= unit { div *= unit; exp++ }\<close>, on unbounded
  integers. Lemma \<open>human_loop_spec\<close> below shows that \<open>div\<close> stays at most \<open>n\<close>, so the
  \<open>int64\<close> of the source never wraps.
\<close>

function human_loop :: "int \<Rightarrow> int \<Rightarrow> nat \<Rightarrow> int \<times> nat" where
  "human_loop n d e = (if 1024 \<le> quo n d then human_loop n (d * 1024) (e + 1) else (d, e))"
  by pat_completeness auto
termination
proof (relation "measure (\<lambda>(n, d, e). nat (quo n d))")
  show "wf (measure (\<lambda>(n, d, e). nat (quo n d)))" by simp
next
  fix n d :: int and e :: nat
  assume h: "1024 \<le> quo n d"
  have s: "sgn n * sgn d = 1"
  proof (rule ccontr)
    assume "sgn n * sgn d \<noteq> 1"
    then have "sgn n * sgn d \<le> 0"
      by (cases "n = 0"; cases "d = 0"; cases "0 < n"; cases "0 < d") (auto simp: sgn_if)
    moreover have "0 \<le> \<bar>n\<bar> div \<bar>d\<bar>" by (simp add: div_int_pos_iff)
    ultimately have "quo n d \<le> 0" unfolding quo_def by (simp add: mult_nonpos_nonneg)
    with h show False by simp
  qed
  then have q1: "quo n d = \<bar>n\<bar> div \<bar>d\<bar>" by (simp add: quo_def)
  have "sgn n * sgn (d * 1024) = 1" using s by (simp add: sgn_mult)
  then have "quo n (d * 1024) = \<bar>n\<bar> div (\<bar>d\<bar> * 1024)" by (simp add: quo_def abs_mult)
  also have "\<dots> = \<bar>n\<bar> div \<bar>d\<bar> div 1024" by (simp add: zdiv_zmult2_eq)
  finally have "quo n (d * 1024) < quo n d" using h q1 by linarith
  with h show "((n, d * 1024, e + 1), (n, d, e)) \<in> measure (\<lambda>(n, d, e). nat (quo n d))"
    by simp
qed

declare human_loop.simps [simp del]

text \<open>
  \<open>human\<close>. Indexing \<open>"KMGTPE"[exp]\<close> panics in Go when \<open>exp\<close> is out of range; that is
  the result \<open>None\<close>.
\<close>

definition human :: "int \<Rightarrow> string option" where
  "human n =
     (if n < 1024 then Some (sprint_d n @ '' B'')
      else let (d, e) = human_loop n 1024 0
           in if e < length ''KMGTPE''
              then Some (fmt_1f (float64_of_int n) d @ '' '' @ [''KMGTPE'' ! e] @ ''B'')
              else None)"

section \<open>Paths\<close>

text \<open>
  \<open>path/filepath\<close> on a host whose separator is the slash (there \<open>ToSlash\<close> changes
  nothing and a path has no volume name). A path is a string; \<open>split_sep\<close> cuts it at
  every separator, \<open>join_sep\<close> puts the separators back.
\<close>

fun split_sep :: "string \<Rightarrow> string list" where
  "split_sep [] = [[]]"
| "split_sep (c # cs) =
     (if c = CHR ''/'' then [] # split_sep cs
      else (c # hd (split_sep cs)) # tl (split_sep cs))"

fun join_sep :: "string list \<Rightarrow> string" where
  "join_sep [] = []"
| "join_sep [x] = x"
| "join_sep (x # y # ys) = x @ CHR ''/'' # join_sep (y # ys)"

text \<open>
  \<open>filepath.Clean\<close> reads the path one element at a time and writes into a buffer: an empty
  element and \<open>.\<close> write nothing; \<open>..\<close> removes the last element written, unless there
  is none or it is itself \<open>..\<close>, and then \<open>..\<close> is written for a path that is not rooted
  and dropped for a rooted one; any other element is appended. \<open>clean_step\<close> is one such
  step on the list of elements written so far, the latest first. An empty result is
  \<open>.\<close>, and the empty path cleans to \<open>.\<close> as well.
\<close>

definition rooted :: "string \<Rightarrow> bool" where
  "rooted p = (p \<noteq> [] \<and> hd p = CHR ''/'')"

definition clean_step :: "bool \<Rightarrow> string list \<Rightarrow> string \<Rightarrow> string list" where
  "clean_step r out e =
     (if e = [] \<or> e = ''.'' then out
      else if e = ''..'' then
        (if out \<noteq> [] \<and> hd out \<noteq> ''..'' then tl out
         else if \<not> r then ''..'' # out
         else out)
      else e # out)"

definition clean_elems :: "string \<Rightarrow> string list" where
  "clean_elems p = rev (foldl (clean_step (rooted p)) [] (split_sep p))"

definition Clean :: "string \<Rightarrow> string" where
  "Clean p =
     (if p = [] then ''.''
      else if rooted p then CHR ''/'' # join_sep (clean_elems p)
      else if clean_elems p = [] then ''.''
      else join_sep (clean_elems p))"

text \<open>
  \<open>filepath.Join(a, b)\<close>: empty arguments are skipped up to the first one that is not
  empty, the rest is joined with separators and cleaned.
\<close>

definition Join :: "string \<Rightarrow> string \<Rightarrow> string" where
  "Join a b =
     (if a \<noteq> [] then Clean (a @ CHR ''/'' # b)
      else if b \<noteq> [] then Clean b
      else [])"

text \<open>
  \<open>filepath.Ext\<close>: the suffix of the last element from its last dot on, or nothing.
  \<open>filepath.Base\<close>: the last element, once trailing separators are removed.
\<close>

definition Ext :: "string \<Rightarrow> string" where
  "Ext p = (let last_elem = last (split_sep p)
            in if CHR ''.'' \<in> set last_elem
               then CHR ''.'' # rev (takeWhile (\<lambda>c. c \<noteq> CHR ''.'') (rev last_elem))
               else [])"

definition Base :: "string \<Rightarrow> string" where
  "Base p =
     (if p = [] then ''.''
      else let q = rev (dropWhile (\<lambda>c. c = CHR ''/'') (rev p))
           in if q = [] then ''/'' else last (split_sep q))"

text \<open>
  What it means for a path to lie within a directory, read off the two strings alone: both
  are rooted or neither is, the elements of the directory (cleaned) are the first elements
  of the path, and no element after them is \<open>..\<close>.
\<close>

definition elems :: "string \<Rightarrow> string list" where
  "elems p = filter (\<lambda>e. e \<noteq> [] \<and> e \<noteq> ''.'') (split_sep p)"

definition lies_within :: "string \<Rightarrow> string \<Rightarrow> bool" where
  "lies_within d p =
     (let r = elems (Clean d)
      in rooted p = rooted (Clean d)
         \<and> take (length r) (elems p) = r
         \<and> ''..'' \<notin> set (drop (length r) (elems p)))"


text \<open>The elements that \<open>Clean\<close> writes: no empty one, no dot, no separator inside.\<close>

definition plain :: "string \<Rightarrow> bool" where
  "plain e = (e \<noteq> [] \<and> e \<noteq> ''.'' \<and> CHR ''/'' \<notin> set e)"

text \<open>The first two lines of \<open>indexHandler\<close>: clean the request path, join it onto the root.\<close>

definition resolve :: "string \<Rightarrow> string \<Rightarrow> string" where
  "resolve d P = Join d (Clean P)"

section \<open>Files, responses and the world around a handler\<close>


text \<open>
  \<open>strings.ToLower\<close> on the letters of ASCII (names outside ASCII are left as they are).
\<close>

definition lower_char :: "char \<Rightarrow> char" where
  "lower_char c =
     (case map_of (zip ''ABCDEFGHIJKLMNOPQRSTUVWXYZ'' ''abcdefghijklmnopqrstuvwxyz'') c of
        Some l \<Rightarrow> l
      | None \<Rightarrow> c)"

definition ToLower :: "string \<Rightarrow> string" where
  "ToLower s = map lower_char s"

text \<open>
  The file system is a tree. A file has its bytes, a directory the size of its own inode
  and its entries in the order \<open>Readdir\<close> returns them. Each node carries the fault the
  operating system will report for it: it cannot be opened, or reading it fails (for a file
  after that many bytes).
\<close>

datatype error = EOF | SkipDir | ReadError | ErrContentLength | ConnError | ErrShortWrite

datatype fault = NoFault | OpenFails | ReadFails nat

datatype node = File fault string | Dir fault nat "(string \<times> node) list"

fun is_dir :: "node \<Rightarrow> bool" where
  "is_dir (Dir f sz es) = True"
| "is_dir (File f c) = False"

fun node_size :: "node \<Rightarrow> int" where
  "node_size (File f c) = int (length c)"
| "node_size (Dir f sz es) = int sz"

fun lookup :: "node \<Rightarrow> string list \<Rightarrow> node option" where
  "lookup n [] = Some n"
| "lookup (File f c) (e # es) = None"
| "lookup (Dir f sz ents) (e # es) =
     (case map_of ents e of None \<Rightarrow> None | Some c \<Rightarrow> lookup c es)"

text \<open>
  An open file: the bytes not read yet, and whether their end is a read error rather than
  the end of the file. \<open>Read\<close> on an \<open>os.File\<close> returns \<open>0, io.EOF\<close> only at the end
  and never \<open>0, nil\<close> for a buffer that is not empty.
\<close>

record handle =
  pending :: string
  failing :: bool

definition file_Read :: "nat \<Rightarrow> handle \<Rightarrow> string \<times> error option \<times> handle" where
  "file_Read k h =
     (if k = 0 then ([], None, h)
      else if pending h = [] then ([], Some (if failing h then ReadError else EOF), h)
      else (take k (pending h), None, h\<lparr>pending := drop k (pending h)\<rparr>))"

fun open_node :: "node \<Rightarrow> handle option" where
  "open_node (File NoFault c) = Some \<lparr>pending = c, failing = False\<rparr>"
| "open_node (File OpenFails c) = None"
| "open_node (File (ReadFails k) c) = Some \<lparr>pending = take k c, failing = True\<rparr>"
| "open_node (Dir f sz es) = (if f = OpenFails then None else Some \<lparr>pending = [], failing = True\<rparr>)"


text \<open>
  The \<open>http.ResponseWriter\<close> of net/http, after its documented contract: the handler
  edits the header map \<open>headers\<close>; the first \<open>WriteHeader\<close> or \<open>Write\<close> fixes the
  status and a copy of the map, \<open>sent_headers\<close>, and later edits of the map change nothing
  that is sent; a \<open>Write\<close> that would pass the \<open>Content-Length\<close> sent is refused with
  \<open>ErrContentLength\<close>. \<open>chunks\<close> holds the data of every \<open>Write\<close> that was taken, in
  order, and \<open>room\<close> is how many bytes the connection still takes before it breaks
  (\<open>None\<close>: it never does).
\<close>

record response =
  headers :: "string \<rightharpoonup> string"
  status :: "nat option"
  sent_headers :: "string \<rightharpoonup> string"
  chunks :: "string list"
  written :: nat
  room :: "nat option"

definition body :: "response \<Rightarrow> string" where
  "body w = concat (chunks w)"

definition digit_val :: "char \<Rightarrow> nat option" where
  "digit_val c = map_of (zip ''0123456789'' [0, 1, 2, 3, 4, 5, 6, 7, 8, 9]) c"

fun parse_dec_from :: "nat \<Rightarrow> string \<Rightarrow> nat option" where
  "parse_dec_from acc [] = Some acc"
| "parse_dec_from acc (c # cs) =
     (case digit_val c of None \<Rightarrow> None | Some v \<Rightarrow> parse_dec_from (10 * acc + v) cs)"

definition parse_dec :: "string \<Rightarrow> nat option" where
  "parse_dec s = (if s = [] then None else parse_dec_from 0 s)"

definition content_length :: "response \<Rightarrow> nat option" where
  "content_length w =
     (case sent_headers w ''Content-Length'' of None \<Rightarrow> None | Some v \<Rightarrow> parse_dec v)"

definition Header_Set :: "string \<Rightarrow> string \<Rightarrow> response \<Rightarrow> response" where
  "Header_Set k v w = w\<lparr>headers := (headers w)(k \<mapsto> v)\<rparr>"

definition Header_Del :: "string \<Rightarrow> response \<Rightarrow> response" where
  "Header_Del k w = w\<lparr>headers := (headers w)(k := None)\<rparr>"

definition WriteHeader :: "nat \<Rightarrow> response \<Rightarrow> response" where
  "WriteHeader code w =
     (if status w \<noteq> None then w else w\<lparr>status := Some code, sent_headers := headers w\<rparr>)"

definition Write :: "string \<Rightarrow> response \<Rightarrow> nat \<times> error option \<times> response" where
  "Write data w0 =
     (let w = WriteHeader 200 w0 in
      if data = [] then (0, None, w)
      else
        let w1 = w\<lparr>written := written w + length data\<rparr> in
        if (case content_length w1 of None \<Rightarrow> False | Some cl \<Rightarrow> cl < written w1)
        then (0, Some ErrContentLength, w1)
        else
          (case room w1 of
             None \<Rightarrow> (length data, None, w1\<lparr>chunks := chunks w1 @ [data]\<rparr>)
           | Some k \<Rightarrow>
               if length data \<le> k
               then (length data, None,
                     w1\<lparr>chunks := chunks w1 @ [data], room := Some (k - length data)\<rparr>)
               else (k, Some ConnError,
                     w1\<lparr>chunks := chunks w1 @ [take k data], room := Some 0\<rparr>)))"

definition Fprint :: "string \<Rightarrow> response \<Rightarrow> response" where
  "Fprint s w = snd (snd (Write s w))"

definition http_Error :: "string \<Rightarrow> nat \<Rightarrow> response \<Rightarrow> response" where
  "http_Error msg code w =
     Fprint (msg @ [CHR 0x0A])
       (WriteHeader code
         (Header_Set ''X-Content-Type-Options'' ''nosniff''
           (Header_Set ''Content-Type'' ''text/plain; charset=utf-8''
             (Header_Del ''Content-Length'' w))))"


text \<open>When a handler returns without having written, the server sends the headers with 200.\<close>

definition finish :: "response \<Rightarrow> response" where
  "finish w = WriteHeader 200 w"

text \<open>
  What a handler leaves on standard output. Durations and rates are \<open>float64\<close> in the
  source; here they are the rationals those computations approximate, and the rendering of
  a float (\<open>%.2f\<close>, \<open>json.Marshal\<close>) is not modelled: a transfer line keeps its four
  values, the JSON text comes from \<open>json_marshal\<close>.
\<close>

record speed_report =
  file_name :: string
  bytes_sent :: int
  mb_per_s :: rat
  duration_s :: rat

datatype logline = TransferLine string string rat rat | JsonLine string

text \<open>
  Everything outside the handlers: the file system and the working directory,
  \<open>mime.TypeByExtension\<close>, \<open>http.ServeContent\<close>, \<open>json.Marshal\<close>, and the duration
  in nanoseconds that \<open>time.Since(start)\<close> will measure.
\<close>

record world =
  fs_root :: node
  cwd :: "string list"
  mime_type :: "string \<Rightarrow> string"
  serve_content :: "string \<Rightarrow> string \<Rightarrow> handle \<Rightarrow> response \<Rightarrow> response"
  json_marshal :: "speed_report \<Rightarrow> string"
  clock :: int

record config =
  dir :: string
  speedBytes :: int

record request =
  url_path :: string
  range_hdr :: string
  file_param :: string

text \<open>
  \<open>os.Stat\<close>: a path that is not rooted starts at the working directory; the empty path
  does not exist.
\<close>

definition abs_elems :: "string list \<Rightarrow> string \<Rightarrow> string list" where
  "abs_elems wd p = rev (foldl (clean_step True) (if rooted p then [] else rev wd) (split_sep p))"

definition os_Stat :: "world \<Rightarrow> string \<Rightarrow> node option" where
  "os_Stat W p = (if p = [] then None else lookup (fs_root W) (abs_elems (cwd W) p))"

definition os_Open :: "world \<Rightarrow> string \<Rightarrow> handle option" where
  "os_Open W p = (case os_Stat W p of None \<Rightarrow> None | Some n \<Rightarrow> open_node n)"

text \<open>
  \<open>elapsed := time.Since(start).Seconds(); if elapsed == 0 { elapsed = 0.000001 }\<close> and
  the rate \<open>float64(n)/(1024*1024)/elapsed\<close>.
\<close>

definition Seconds :: "int \<Rightarrow> rat" where
  "Seconds d = of_int d / 1000000000"

definition since_start :: "world \<Rightarrow> rat" where
  "since_start W = (let elapsed = Seconds (clock W) in if elapsed = 0 then 1 / 1000000 else elapsed)"

definition MB_per_s :: "int \<Rightarrow> rat \<Rightarrow> rat" where
  "MB_per_s n elapsed = of_int n / (1024 * 1024) / elapsed"

definition buf_len :: nat where
  "buf_len = 1048576"

section \<open>The handlers\<close>

text \<open>
  \<open>filepath.Walk\<close>: the function is called on a directory before its entries, the
  entries are visited in the order of their names, the first error other than
  \<open>SkipDir\<close> ends the walk. A \<open>WalkFunc\<close> gets the path, the file info (none when
  \<open>Lstat\<close> failed) and whether there was an error; its state here is the variable
  \<open>found\<close> that the closure of \<open>speedTestHandler\<close> assigns.
\<close>

type_synonym 's walkfn = "string \<Rightarrow> node option \<Rightarrow> bool \<Rightarrow> 's \<Rightarrow> 's \<times> error option"

lemma size_list_insort_key:
  "size_list f (insort_key k x xs) = size_list f (x # xs)"
  by (induction xs) simp_all

lemma size_list_sort_key: "size_list f (sort_key k xs) = size_list f xs"
  by (induction xs) (simp_all add: size_list_insort_key)

function walk :: "'s walkfn \<Rightarrow> string \<Rightarrow> node \<Rightarrow> 's \<Rightarrow> 's \<times> error option"
  and walk_entries :: "'s walkfn \<Rightarrow> string \<Rightarrow> (string \<times> node) list \<Rightarrow> 's \<Rightarrow> 's \<times> error option"
where
  "walk fn path (File f c) s = fn path (Some (File f c)) False s"
| "walk fn path (Dir f sz ents) s =
     (let names_err = (f \<noteq> NoFault);
          (s1, err1) = fn path (Some (Dir f sz ents)) names_err s
      in if names_err \<or> err1 \<noteq> None then (s1, err1)
         else walk_entries fn path (sort_key fst ents) s1)"
| "walk_entries fn path [] s = (s, None)"
| "walk_entries fn path ((name, child) # rest) s =
     (let (s1, err) = walk fn (Join path name) child s
      in if err \<noteq> None \<and> (\<not> is_dir child \<or> err \<noteq> Some SkipDir) then (s1, err)
         else walk_entries fn path rest s1)"
  by pat_completeness auto
termination
  by (relation "measure (\<lambda>x. case x of
          Inl (fn, path, n, s) \<Rightarrow> size n
        | Inr (fn, path, es, s) \<Rightarrow> size_list (size_prod (\<lambda>_. 0) size) es)")
     (simp_all add: size_list_sort_key)

definition Walk :: "world \<Rightarrow> string \<Rightarrow> 's walkfn \<Rightarrow> 's \<Rightarrow> 's \<times> error option" where
  "Walk W start fn s =
     (let (s1, err) = (case os_Stat W start of
                         None \<Rightarrow> fn start None True s
                       | Some info \<Rightarrow> walk fn start info s)
      in if err = Some SkipDir then (s1, None) else (s1, err))"

text \<open>Source selection of \<open>speedTestHandler\<close>; the empty string is "no target".\<close>

definition is_media :: "string \<Rightarrow> bool" where
  "is_media p =
     (let ext = ToLower (Ext p)
      in ext = ''.mkv'' \<or> ext = ''.mp4'' \<or> ext = ''.ts'' \<or> ext = ''.m2ts'' \<or> ext = ''.iso'')"

definition media_fn :: "string walkfn" where
  "media_fn p info err found =
     (if err \<or> (case info of None \<Rightarrow> True | Some n \<Rightarrow> is_dir n) then (found, None)
      else if is_media p then (p, Some EOF)
      else (found, None))"

definition select_target :: "world \<Rightarrow> config \<Rightarrow> request \<Rightarrow> string option" where
  "select_target W cfg r =
     (let fileParam = file_param r;
          candidate = Join (dir cfg) (Clean (CHR ''/'' # fileParam));
          target = (if fileParam \<noteq> [] then
                      (case os_Stat W candidate of
                         None \<Rightarrow> []
                       | Some fi \<Rightarrow> if \<not> is_dir fi then candidate else [])
                    else [])
      in if target = [] then
           (let found = fst (Walk W (dir cfg) media_fn [])
            in if found = [] then None else Some found)
         else Some target)"

text \<open>\<open>size := speedBytes; if size <= 0 { size = 50 << 20 }\<close>, then the streaming loop.\<close>

definition budget :: "config \<Rightarrow> int" where
  "budget cfg = (if speedBytes cfg \<le> 0 then 50 * 2 ^ 20 else speedBytes cfg)"

lemma file_Read_shrinks:
  "(data, er, h1) = file_Read k h \<Longrightarrow> data \<noteq> [] \<Longrightarrow> length (pending h1) < length (pending h)"
  by (auto simp: file_Read_def split: if_splits)

lemma file_Read_ends:
  "(data, er, h1) = file_Read k h \<Longrightarrow> 0 < k \<Longrightarrow> data = [] \<Longrightarrow> er \<noteq> None"
  by (auto simp: file_Read_def split: if_splits)

function stream_loop :: "int \<Rightarrow> int \<Rightarrow> handle \<Rightarrow> response \<Rightarrow> int \<times> handle \<times> response" where
  "stream_loop remaining sent f w =
     (if 0 < remaining then
        (let toRead = (if remaining < int buf_len then remaining else int buf_len);
             (data, err, f1) = file_Read (nat toRead) f
         in if data \<noteq> [] then
              (let (nw, errw, w1) = Write data w
               in if errw \<noteq> None \<or> nw \<noteq> length data then (sent, f1, w1)
                  else if err \<noteq> None then (sent + int nw, f1, w1)
                  else stream_loop (remaining - int nw) (sent + int nw) f1 w1)
            else if err \<noteq> None then (sent, f1, w)
            else stream_loop remaining sent f1 w)
      else (sent, f, w))"
  by pat_completeness auto
termination
proof (relation "measure (\<lambda>(remaining, sent, f, w). nat remaining)", goal_cases)
  case 1
  show ?case by simp
next
  case (2 remaining sent f w toRead x data y err f1 xa nw ya errw w1)
  then show ?case by simp
next
  case (3 remaining sent f w toRead x data y err f1)
  have "(data, err, f1) = file_Read (nat toRead) f" using 3(3-5) by simp
  moreover have "0 < nat toRead" using 3(1,2) by (simp add: buf_len_def)
  moreover have "data = []" using 3(6) by simp
  ultimately have "err \<noteq> None" by (rule file_Read_ends)
  with 3(7) show ?case by simp
qed

declare stream_loop.simps [simp del]

text \<open>
  The loop of \<open>io.CopyBuffer\<close> with the buffer of \<open>1 << 20\<close> bytes that
  \<open>serveFileFast\<close> passes. (Where the file or the response brings its own copy routine
  the library skips the buffer; bytes copied and error are the same.)
\<close>

function copy_loop :: "handle \<Rightarrow> response \<Rightarrow> int \<Rightarrow> int \<times> error option \<times> handle \<times> response" where
  "copy_loop src dst n =
     (let (data, er, src1) = file_Read buf_len src
      in if data \<noteq> [] then
           (let (nw, ew, dst1) = Write data dst;
                n1 = n + int nw
            in if ew \<noteq> None then (n1, ew, src1, dst1)
               else if length data \<noteq> nw then (n1, Some ErrShortWrite, src1, dst1)
               else if er \<noteq> None then (n1, if er = Some EOF then None else er, src1, dst1)
               else copy_loop src1 dst1 n1)
         else if er \<noteq> None then (n, if er = Some EOF then None else er, src1, dst)
         else copy_loop src1 dst n)"
  by pat_completeness auto
termination
proof (relation "measure (\<lambda>(src, dst, n). length (pending src))", goal_cases)
  case 1
  show ?case by simp
next
  case (2 src dst n x data y er src1 xa nw ya ew dst1 n1)
  have "(data, er, src1) = file_Read buf_len src" using 2(1-3) by simp
  then have "length (pending src1) < length (pending src)" using 2(4) by (rule file_Read_shrinks)
  then show ?case by simp
next
  case (3 src dst n x data y er src1)
  have "(data, er, src1) = file_Read buf_len src" using 3(1-3) by simp
  moreover have "0 < buf_len" by (simp add: buf_len_def)
  moreover have "data = []" using 3(4) by simp
  ultimately have "er \<noteq> None" by (rule file_Read_ends)
  with 3(5) show ?case by simp
qed

declare copy_loop.simps [simp del]

definition speed_result :: "world \<Rightarrow> string \<Rightarrow> int \<Rightarrow> speed_report" where
  "speed_result W target sent =
     \<lparr>file_name = Base target, bytes_sent = sent,
      mb_per_s = MB_per_s sent (since_start W), duration_s = since_start W\<rparr>"

definition speed_transfer :: "config \<Rightarrow> handle \<Rightarrow> response \<Rightarrow> int \<times> handle \<times> response" where
  "speed_transfer cfg f w =
     (let size = budget cfg;
          w1 = Header_Set ''Accept-Ranges'' ''bytes''
                 (Header_Set ''Content-Length'' (sprint_d size)
                   (Header_Set ''Content-Type'' ''application/octet-stream'' w))
      in stream_loop size 0 f w1)"

definition speedTestHandler :: "world \<Rightarrow> config \<Rightarrow> request \<Rightarrow> response \<Rightarrow> response \<times> logline list" where
  "speedTestHandler W cfg r w =
     (case select_target W cfg r of
        None \<Rightarrow> (http_Error ''no media file found for speedtest'' 404 w, [])
      | Some target \<Rightarrow>
          (case os_Open W target of
             None \<Rightarrow> (http_Error ''cannot open file'' 500 w, [])
           | Some f \<Rightarrow>
               (let (sent, f1, w1) = speed_transfer cfg f w;
                    js = json_marshal W (speed_result W target sent);
                    w2 = Header_Set ''Content-Type'' ''application/json'' w1
                in (Fprint js w2, [JsonLine js]))))"

definition serveFileFast ::
  "world \<Rightarrow> request \<Rightarrow> string \<Rightarrow> node \<Rightarrow> response \<Rightarrow> (response \<times> logline list) option" where
  "serveFileFast W r path fi w =
     (if range_hdr r \<noteq> [] then
        (case os_Open W path of
           None \<Rightarrow> Some (http_Error ''cannot open file'' 500 w, [])
         | Some f \<Rightarrow> Some (serve_content W (range_hdr r) (Base path) f w, []))
      else
        (case os_Open W path of
           None \<Rightarrow> Some (http_Error ''cannot open file'' 500 w, [])
         | Some f \<Rightarrow>
             (let typ0 = mime_type W (ToLower (Ext path));
                  typ = (if typ0 = [] then ''application/octet-stream'' else typ0);
                  w1 = Header_Set ''Accept-Ranges'' ''bytes''
                         (Header_Set ''Content-Length'' (sprint_d (node_size fi))
                           (Header_Set ''Content-Type'' typ w));
                  (n, err, f1, w2) = copy_loop f w1 0
              in if err \<noteq> None then Some (w2, [])
                 else
                   (case human n of
                      None \<Rightarrow> None
                    | Some hn \<Rightarrow>
                        Some (w2, [TransferLine (Base path) hn (since_start W)
                                     (MB_per_s n (since_start W))])))))"







text \<open>A response nothing has been written to, and a small world to run the handlers in.\<close>

definition new_response :: "nat option \<Rightarrow> response" where
  "new_response k = \<lparr>headers = Map.empty, status = None, sent_headers = Map.empty, chunks = [],
                     written = 0, room = k\<rparr>"

definition demo_fs :: node where
  "demo_fs = Dir NoFault 4096
     [(''srv'', Dir NoFault 4096
        [(''z.txt'', File NoFault ''hello''),
         (''b'', Dir NoFault 4096
            [(''movie.MKV'', File NoFault ''0123456789''), (''a.mp4'', File NoFault ''xy'')]),
         (''a.txt'', File NoFault ''abc'')]),
      (''etc'', Dir NoFault 4096 [(''passwd'', File NoFault ''root'')])]"

definition demo_world :: world where
  "demo_world =
     \<lparr>fs_root = demo_fs, cwd = [''srv''],
      mime_type = (\<lambda>e. if e = ''.txt'' then ''text/plain'' else []),
      serve_content = (\<lambda>rg name f w. w),
      json_marshal = (\<lambda>r. ''{bytes_sent:'' @ sprint_d (bytes_sent r) @ ''}''),
      clock = 0\<rparr>"

text \<open>The length that is, or will be, declared to the client.\<close>

definition declared :: "response \<Rightarrow> nat option" where
  "declared w = content_length (WriteHeader 200 w)"

text \<open>What any sequence of writes leaves unchanged.\<close>

definition wrote :: "response \<Rightarrow> response \<Rightarrow> bool" where
  "wrote w w' =
     (headers w' = headers w
      \<and> sent_headers (WriteHeader 200 w') = sent_headers (WriteHeader 200 w)
      \<and> status (WriteHeader 200 w') = status (WriteHeader 200 w)
      \<and> (\<exists>cs. chunks w' = chunks w @ cs \<and> (\<forall>c \<in> set cs. length c \<le> buf_len)))"

text \<open>The three headers \<open>speedTestHandler\<close> sets before it streams.\<close>

definition speed_headers :: "config \<Rightarrow> response \<Rightarrow> response" where
  "speed_headers cfg w =
     Header_Set ''Accept-Ranges'' ''bytes''
       (Header_Set ''Content-Length'' (sprint_d (budget cfg))
         (Header_Set ''Content-Type'' ''application/octet-stream'' w))"

text \<open>The content type and the three headers of \<open>serveFileFast\<close> in full mode.\<close>

definition content_type :: "world \<Rightarrow> string \<Rightarrow> string" where
  "content_type W path =
     (if mime_type W (ToLower (Ext path)) = [] then ''application/octet-stream''
      else mime_type W (ToLower (Ext path)))"

definition full_headers :: "world \<Rightarrow> string \<Rightarrow> node \<Rightarrow> response \<Rightarrow> response" where
  "full_headers W path fi w =
     Header_Set ''Accept-Ranges'' ''bytes''
       (Header_Set ''Content-Length'' (sprint_d (node_size fi))
         (Header_Set ''Content-Type'' (content_type W path) w))"

text \<open>The path that the \<open>file\<close> parameter of \<open>/speedtest\<close> names.\<close>

definition candidate :: "config \<Rightarrow> request \<Rightarrow> string" where
  "candidate cfg r = Join (dir cfg) (Clean (CHR ''/'' # file_param r))"



section \<open>The size formatter\<close>

lemma quo_pos: "0 \<le> a \<Longrightarrow> 0 < b \<Longrightarrow> quo a b = a div b"
  by (cases "a = 0") (simp_all add: quo_def)

lemma int_le_div_iff:
  fixes d k n :: int
  assumes d: "0 < d"
  shows "(k \<le> n div d) = (k * d \<le> n)"
proof
  have dm: "n div d * d + n mod d = n" by simp
  have m0: "0 \<le> n mod d" using d by simp
  assume "k \<le> n div d"
  then have "k * d \<le> n div d * d" using d by (simp add: mult_right_mono)
  with dm m0 show "k * d \<le> n" by linarith
next
  have dm: "n div d * d + n mod d = n" by simp
  have m1: "n mod d < d" using d by simp
  assume kd: "k * d \<le> n"
  show "k \<le> n div d"
  proof (rule ccontr)
    assume "\<not> k \<le> n div d"
    then have "n div d + 1 \<le> k" by simp
    then have "(n div d + 1) * d \<le> k * d" using d by (simp only: mult_right_mono less_imp_le)
    then have "n div d * d + d \<le> k * d" by (simp add: algebra_simps)
    with kd dm m1 show False by linarith
  qed
qed

lemma human_loop_spec:
  "0 < d \<Longrightarrow> d \<le> n \<Longrightarrow>
   \<exists>j. human_loop n d e = (d * 1024 ^ j, e + j) \<and> d * 1024 ^ j \<le> n \<and> n < d * 1024 ^ j * 1024"
proof (induction n d e rule: human_loop.induct)
  case (1 n d e)
  have q: "quo n d = n div d" using 1(2,3) by (simp add: quo_pos)
  show ?case
  proof (cases "1024 \<le> quo n d")
    case True
    then have le: "d * 1024 \<le> n" using q 1(2) int_le_div_iff[of d 1024 n]
      by (simp add: mult.commute)
    from 1(1)[OF True _ le] 1(2)
    obtain j where j: "human_loop n (d * 1024) (e + 1) = (d * 1024 * 1024 ^ j, e + 1 + j)"
      "d * 1024 * 1024 ^ j \<le> n" "n < d * 1024 * 1024 ^ j * 1024"
      by auto
    have "human_loop n d e = (d * 1024 ^ Suc j, e + Suc j)"
      using True j(1) by (subst human_loop.simps) (simp add: mult.assoc)
    moreover have "d * 1024 ^ Suc j \<le> n" using j(2) by (simp add: mult.assoc)
    moreover have "n < d * 1024 ^ Suc j * 1024" using j(3) by (simp add: mult.assoc)
    ultimately show ?thesis by blast
  next
    case False
    then have "\<not> 1024 * d \<le> n" using q 1(2) int_le_div_iff[of d 1024 n] by simp
    then have "n < d * 1024" by simp
    moreover have "human_loop n d e = (d, e)"
      using False by (subst human_loop.simps) simp
    ultimately show ?thesis using 1(3) by (intro exI[of _ 0]) simp
  qed
qed

lemma round_half_even_near:
  assumes d: "0 < d"
  shows "2 * \<bar>a - round_half_even a d * d\<bar> \<le> d"
proof -
  define q r where "q = a div d" and "r = a mod d"
  have dm: "q * d + r = a" by (simp add: q_def r_def)
  have m: "0 \<le> r" "r < d" using d by (simp_all add: r_def)
  have rh: "round_half_even a d = (if d < 2 * r \<or> (2 * r = d \<and> odd q) then q + 1 else q)"
    by (simp add: round_half_even_def Let_def q_def r_def)
  show ?thesis
  proof (cases "d < 2 * r \<or> (2 * r = d \<and> odd q)")
    case True
    then have "round_half_even a d * d = q * d + d" using rh by (simp add: algebra_simps)
    with dm have "a - round_half_even a d * d = r - d" by linarith
    then show ?thesis using True m by auto
  next
    case False
    then have "round_half_even a d = q" using rh by (simp split: if_splits)
    then have "round_half_even a d * d = q * d" by simp
    with dm have "a - round_half_even a d * d = r" by linarith
    then show ?thesis using False m by auto
  qed
qed

lemma round_half_even_nonneg: "0 \<le> a \<Longrightarrow> 0 < d \<Longrightarrow> 0 \<le> round_half_even a d"
  unfolding round_half_even_def Let_def
  by (simp add: pos_imp_zdiv_nonneg_iff add_nonneg_nonneg)

lemma sprint_d_digit: "0 \<le> t \<Longrightarrow> sprint_d (t mod 10) = [digit_char (nat (t mod 10))]"
proof -
  have "nat (t mod 10) < 10" by (simp add: nat_less_iff)
  moreover have "\<not> t mod 10 < 0" by simp
  ultimately show ?thesis by (simp add: sprint_d_def dec_digits.simps)
qed

lemma fmt_1f_shape:
  assumes "0 \<le> a" "0 < d"
  shows "\<exists>t. fmt_1f a d = dec_digits (t div 10) @ ''.'' @ [digit_char (t mod 10)]
             \<and> 2 * \<bar>10 * a - int t * d\<bar> \<le> d"
proof -
  define r where "r = round_half_even (10 * a) d"
  have r0: "0 \<le> r" unfolding r_def using assms by (intro round_half_even_nonneg) simp_all
  have near: "2 * \<bar>10 * a - r * d\<bar> \<le> d"
    unfolding r_def using assms(2) by (rule round_half_even_near)
  have a1: "sprint_d (r div 10) = dec_digits (nat r div 10)"
    using r0 by (simp add: sprint_d_def nat_div_distrib pos_imp_zdiv_neg_iff)
  have a2: "sprint_d (r mod 10) = [digit_char (nat r mod 10)]"
    using r0 sprint_d_digit[of r] by (simp add: nat_mod_distrib)
  have "fmt_1f a d = dec_digits (nat r div 10) @ ''.'' @ [digit_char (nat r mod 10)]"
    using a1 a2 by (simp add: fmt_1f_def Let_def r_def)
  moreover have "2 * \<bar>10 * a - int (nat r) * d\<bar> \<le> d" using near r0 by simp
  ultimately show ?thesis by blast
qed

lemma float64_small: "0 \<le> n \<Longrightarrow> n < 2 ^ 53 \<Longrightarrow> float64_of_int n = n"
proof (cases "n = 0")
  case True
  then show ?thesis by (simp add: float64_of_int_def)
next
  case False
  assume a: "0 \<le> n" "n < 2 ^ 53"
  with False have p: "0 < n" by simp
  have "(2::int) ^ nat (bitlen n - 1) \<le> n" using bitlen_bounds[OF p] by simp
  with a(2) have "(2::int) ^ nat (bitlen n - 1) < 2 ^ 53" by linarith
  then have "nat (bitlen n - 1) < 53" by (simp only: power_strict_increasing_iff one_less_numeral_iff semiring_norm)
  then have "bitlen n - 53 \<le> 0" by linarith
  then show ?thesis by (simp add: float64_of_int_def)
qed

lemma float64_nonneg: "0 \<le> n \<Longrightarrow> 0 \<le> float64_of_int n"
  unfolding float64_of_int_def Let_def
  by (simp add: pos_imp_zdiv_nonneg_iff add_nonneg_nonneg)

lemma human_examples:
  "human 0 = Some ''0 B''" "human 1024 = Some ''1.0 KB''"
  "human 1536 = Some ''1.5 KB''" "human 1048576 = Some ''1.0 MB''"
  by code_simp+

lemma human_small: "n < 1024 \<Longrightarrow> human n = Some (sprint_d n @ '' B'')"
  by (simp add: human_def)

lemma human_large:
  assumes lo: "1024 \<le> n" and hi: "n < 2 ^ 63"
  shows "\<exists>k t. 1 \<le> k \<and> k \<le> 6 \<and> 1024 ^ k \<le> n \<and> n < 1024 ^ (k + 1)
           \<and> human n = Some (dec_digits (t div 10) @ ''.'' @ [digit_char (t mod 10)]
                                 @ '' '' @ [''KMGTPE'' ! (k - 1)] @ ''B'')
           \<and> 2 * \<bar>10 * float64_of_int n - int t * 1024 ^ k\<bar> \<le> 1024 ^ k"
proof -
  from human_loop_spec[of 1024 n 0] lo
  obtain j where j: "human_loop n 1024 0 = (1024 * 1024 ^ j, j)"
    "1024 * 1024 ^ j \<le> n" "n < 1024 * 1024 ^ j * 1024"
    by auto
  have j5: "j < 6"
  proof (rule ccontr)
    assume "\<not> j < 6"
    then have "(1024::int) ^ 6 \<le> 1024 ^ j" by (intro power_increasing) simp_all
    then have "(1024::int) * 1024 ^ 6 \<le> 1024 * 1024 ^ j" by simp
    with j(2) hi show False by simp
  qed
  have pos: "(0::int) < 1024 * 1024 ^ j" by simp
  have f0: "0 \<le> float64_of_int n" using lo by (intro float64_nonneg) simp
  from fmt_1f_shape[OF f0 pos]
  obtain t where t: "fmt_1f (float64_of_int n) (1024 * 1024 ^ j)
        = dec_digits (t div 10) @ ''.'' @ [digit_char (t mod 10)]"
      "2 * \<bar>10 * float64_of_int n - int t * (1024 * 1024 ^ j)\<bar> \<le> 1024 * 1024 ^ j"
    by blast
  have h: "human n = Some (dec_digits (t div 10) @ ''.'' @ [digit_char (t mod 10)]
                              @ '' '' @ [''KMGTPE'' ! j] @ ''B'')"
    using lo j(1) j5 t(1) by (simp add: human_def)
  have k1: "(1024::int) ^ Suc j \<le> n" using j(2) by simp
  have k2: "n < (1024::int) ^ (Suc j + 1)" using j(3) by (simp add: mult.commute)
  have k3: "2 * \<bar>10 * float64_of_int n - int t * 1024 ^ Suc j\<bar> \<le> 1024 ^ Suc j"
    using t(2) by simp
  have k4: "human n = Some (dec_digits (t div 10) @ ''.'' @ [digit_char (t mod 10)]
                              @ '' '' @ [''KMGTPE'' ! (Suc j - 1)] @ ''B'')"
    using h by simp
  have k5: "1 \<le> Suc j" "Suc j \<le> 6" using j5 by simp_all
  from k5 k1 k2 k4 k3 show ?thesis by blast
qed

text \<open>
  C7. For every size of the \<open>int64\<close> range that is not negative, \<open>human\<close> returns a
  string (it never panics). Below 1024 it is the decimal number followed by \<open>" B"\<close>. From
  1024 on, with \<open>k\<close> the power of 1024 such that \<open>1024^k \<le> n < 1024^(k+1)\<close>, it is a
  decimal number with exactly one digit after the point, a space, the \<open>k\<close>-th letter of
  \<open>KMGTPE\<close> and \<open>B\<close>; the number printed is \<open>float64(n) / 1024^k\<close> rounded to one
  decimal (at most 0.05 away from it), and \<open>float64(n)\<close> is \<open>n\<close> itself below \<open>2^53\<close>.
  The inputs 0, 1024, 1536 and 1048576 give \<open>"0 B"\<close>, \<open>"1.0 KB"\<close>, \<open>"1.5 KB"\<close> and
  \<open>"1.0 MB"\<close>.
\<close>

theorem human_format:
  assumes "0 \<le> n" and "n < 2 ^ 63"
  shows "(n < 1024 \<longrightarrow> human n = Some (dec_digits (nat n) @ '' B''))
       \<and> (1024 \<le> n \<longrightarrow>
            (\<exists>k t. 1 \<le> k \<and> k \<le> 6 \<and> 1024 ^ k \<le> n \<and> n < 1024 ^ (k + 1)
               \<and> human n = Some (dec_digits (t div 10) @ ''.'' @ [digit_char (t mod 10)]
                                     @ '' '' @ [''KMGTPE'' ! (k - 1)] @ ''B'')
               \<and> 2 * \<bar>10 * float64_of_int n - int t * 1024 ^ k\<bar> \<le> 1024 ^ k))
       \<and> (n < 2 ^ 53 \<longrightarrow> float64_of_int n = n)
       \<and> human 0 = Some ''0 B'' \<and> human 1024 = Some ''1.0 KB''
       \<and> human 1536 = Some ''1.5 KB'' \<and> human 1048576 = Some ''1.0 MB''"
proof (intro conjI impI)
  assume "n < 1024"
  then show "human n = Some (dec_digits (nat n) @ '' B'')"
    using assms(1) by (simp add: human_small sprint_d_def)
next
  assume "1024 \<le> n"
  then show "\<exists>k t. 1 \<le> k \<and> k \<le> 6 \<and> 1024 ^ k \<le> n \<and> n < 1024 ^ (k + 1)
               \<and> human n = Some (dec_digits (t div 10) @ ''.'' @ [digit_char (t mod 10)]
                                     @ '' '' @ [''KMGTPE'' ! (k - 1)] @ ''B'')
               \<and> 2 * \<bar>10 * float64_of_int n - int t * 1024 ^ k\<bar> \<le> 1024 ^ k"
    using assms(2) by (rule human_large)
next
  assume "n < 2 ^ 53"
  then show "float64_of_int n = n" using assms(1) by (simp add: float64_small)
qed (rule human_examples)+

theorem human_format_witness:
  "\<exists>k t. 1 \<le> k \<and> k \<le> 6 \<and> (1024::int) ^ k \<le> 1536 \<and> (1536::int) < 1024 ^ (k + 1)
       \<and> human 1536 = Some (dec_digits (t div 10) @ ''.'' @ [digit_char (t mod 10)]
                                @ '' '' @ [''KMGTPE'' ! (k - 1)] @ ''B'')
       \<and> 2 * \<bar>10 * float64_of_int 1536 - int t * 1024 ^ k\<bar> \<le> 1024 ^ k"
proof -
  have a: "(0::int) \<le> 1536" and b: "(1536::int) < 2 ^ 63" and c: "(1024::int) \<le> 1536"
    by simp_all
  from human_format[OF a b] c show ?thesis by blast
qed

section \<open>Path resolution\<close>

lemma split_sep_nonempty [simp]: "split_sep s \<noteq> []"
  by (induction s) auto

lemma split_sep_append: "split_sep (a @ CHR ''/'' # b) = split_sep a @ split_sep b"
proof (induction a)
  case Nil
  then show ?case by simp
next
  case (Cons c a)
  then show ?case by (cases "split_sep a") auto
qed

lemma split_sep_no_sep: "e \<in> set (split_sep s) \<Longrightarrow> CHR ''/'' \<notin> set e"
proof (induction s arbitrary: e)
  case Nil
  then show ?case by simp
next
  case (Cons c s)
  then show ?case
    by (cases "split_sep s") (auto split: if_splits)
qed

lemma split_sep_plain: "CHR ''/'' \<notin> set e \<Longrightarrow> split_sep e = [e]"
  by (induction e) auto

lemma split_join_sep:
  "xs \<noteq> [] \<Longrightarrow> \<forall>e \<in> set xs. CHR ''/'' \<notin> set e \<Longrightarrow> split_sep (join_sep xs) = xs"
proof (induction xs rule: join_sep.induct)
  case 1
  then show ?case by simp
next
  case (2 x)
  then show ?case by (simp add: split_sep_plain)
next
  case (3 x y ys)
  then show ?case by (simp add: split_sep_append split_sep_plain)
qed

lemma clean_step_plain:
  "\<forall>x \<in> set out. plain x \<Longrightarrow> CHR ''/'' \<notin> set e \<Longrightarrow> \<forall>x \<in> set (clean_step r out e). plain x"
  by (cases out) (auto simp: clean_step_def plain_def)

lemma foldl_clean_plain:
  "\<forall>x \<in> set out. plain x \<Longrightarrow> \<forall>e \<in> set es. CHR ''/'' \<notin> set e
   \<Longrightarrow> \<forall>x \<in> set (foldl (clean_step r) out es). plain x"
proof (induction es arbitrary: out)
  case Nil
  then show ?case by simp
next
  case (Cons e es)
  have "\<forall>x \<in> set (clean_step r out e). plain x"
    using Cons.prems by (intro clean_step_plain) simp_all
  then show ?case using Cons.prems by (simp add: Cons.IH)
qed

lemma clean_step_rooted_nodotdot:
  "''..'' \<notin> set out \<Longrightarrow> ''..'' \<notin> set (clean_step True out e)"
  by (cases out) (auto simp: clean_step_def)

lemma foldl_clean_rooted_nodotdot:
  "''..'' \<notin> set out \<Longrightarrow> ''..'' \<notin> set (foldl (clean_step True) out es)"
  by (induction es arbitrary: out) (simp_all add: clean_step_rooted_nodotdot)

lemma clean_elems_plain: "\<forall>x \<in> set (clean_elems p). plain x"
  unfolding clean_elems_def set_rev
  by (rule foldl_clean_plain) (auto dest: split_sep_no_sep)

lemma clean_elems_rooted: "rooted p \<Longrightarrow> ''..'' \<notin> set (clean_elems p)"
  unfolding clean_elems_def set_rev
  by (simp add: foldl_clean_rooted_nodotdot)

lemma foldl_clean_push:
  "\<forall>e \<in> set es. plain e \<and> e \<noteq> ''..'' \<Longrightarrow> foldl (clean_step r) out es = rev es @ out"
  by (induction es arbitrary: out) (auto simp: clean_step_def plain_def)

lemma foldl_clean_skip:
  "foldl (clean_step r) out (filter (\<lambda>e. e \<noteq> [] \<and> e \<noteq> ''.'') es) = foldl (clean_step r) out es"
  by (induction es arbitrary: out) (auto simp: clean_step_def)

lemma filter_plain_id: "\<forall>x \<in> set xs. plain x \<Longrightarrow> filter (\<lambda>e. e \<noteq> [] \<and> e \<noteq> ''.'') xs = xs"
  by (induction xs) (auto simp: plain_def)

lemma join_sep_not_rooted:
  "xs \<noteq> [] \<Longrightarrow> \<forall>x \<in> set xs. plain x \<Longrightarrow> \<not> rooted (join_sep xs)"
proof (induction xs rule: join_sep.induct)
  case 1
  then show ?case by simp
next
  case (2 x)
  then show ?case by (cases x) (auto simp: rooted_def plain_def)
next
  case (3 x y ys)
  then show ?case by (cases x) (auto simp: rooted_def plain_def)
qed

lemma rooted_Clean: "rooted (Clean p) = rooted p"
proof (cases "p = []")
  case True
  then show ?thesis by (simp add: Clean_def rooted_def)
next
  case False
  show ?thesis
  proof (cases "rooted p")
    case True
    then show ?thesis using False by (simp add: Clean_def rooted_def)
  next
    case r: False
    show ?thesis
    proof (cases "clean_elems p = []")
      case True
      then show ?thesis using False r by (simp add: Clean_def rooted_def)
    next
      case e: False
      have "\<not> rooted (join_sep (clean_elems p))"
        using e clean_elems_plain by (rule join_sep_not_rooted)
      then show ?thesis using False r e by (simp add: Clean_def)
    qed
  qed
qed

lemma elems_Clean: "elems (Clean p) = clean_elems p"
proof -
  have pl: "\<forall>x \<in> set (clean_elems p). plain x" by (rule clean_elems_plain)
  then have ns: "\<forall>e \<in> set (clean_elems p). CHR ''/'' \<notin> set e" by (simp add: plain_def)
  have emp: "p = [] \<Longrightarrow> clean_elems p = []" by (simp add: clean_elems_def clean_step_def)
  show ?thesis
  proof (cases "clean_elems p = []")
    case True
    then show ?thesis by (auto simp: Clean_def elems_def)
  next
    case False
    then have sj: "split_sep (join_sep (clean_elems p)) = clean_elems p"
      using ns by (rule split_join_sep)
    have "p \<noteq> []" using False emp by blast
    then show ?thesis using False sj pl by (auto simp: Clean_def elems_def filter_plain_id)
  qed
qed

lemma clean_elems_via_elems:
  "clean_elems p = rev (foldl (clean_step (rooted p)) [] (elems p))"
  by (simp add: clean_elems_def elems_def foldl_clean_skip)

lemma elems_append: "elems (a @ CHR ''/'' # b) = elems a @ elems b"
  by (simp add: elems_def split_sep_append)

lemma rooted_append: "a \<noteq> [] \<Longrightarrow> rooted (a @ b) = rooted a"
  by (cases a) (simp_all add: rooted_def)

text \<open>Joining a cleaned, \<open>..\<close>-free path onto a directory appends its elements.\<close>

lemma clean_elems_join:
  assumes d: "d \<noteq> []" and u: "\<forall>e \<in> set (elems u). plain e \<and> e \<noteq> ''..''"
  shows "clean_elems (d @ CHR ''/'' # u) = clean_elems d @ elems u"
proof -
  have r: "rooted (d @ CHR ''/'' # u) = rooted d" using d by (rule rooted_append)
  have "foldl (clean_step (rooted d)) [] (elems d @ elems u)
        = foldl (clean_step (rooted d)) (foldl (clean_step (rooted d)) [] (elems d)) (elems u)"
    by simp
  also have "\<dots> = rev (elems u) @ foldl (clean_step (rooted d)) [] (elems d)"
    using u by (rule foldl_clean_push)
  finally show ?thesis
    by (simp add: clean_elems_via_elems r elems_append)
qed

lemma Clean_cong:
  "p \<noteq> [] \<Longrightarrow> q \<noteq> [] \<Longrightarrow> rooted p = rooted q \<Longrightarrow> clean_elems p = clean_elems q
   \<Longrightarrow> Clean p = Clean q"
  by (simp add: Clean_def)

lemma request_elems:
  assumes "P = [] \<or> rooted P"
  shows "\<forall>e \<in> set (elems (Clean P)). plain e \<and> e \<noteq> ''..''"
proof (cases "P = []")
  case True
  then show ?thesis by (simp add: Clean_def elems_def)
next
  case False
  with assms have "rooted P" by simp
  then have "''..'' \<notin> set (clean_elems P)" by (rule clean_elems_rooted)
  then show ?thesis using clean_elems_plain[of P] by (auto simp: elems_Clean)
qed

lemma join_sep_nonempty: "xs \<noteq> [] \<Longrightarrow> \<forall>x \<in> set xs. plain x \<Longrightarrow> join_sep xs \<noteq> []"
  by (induction xs rule: join_sep.induct) (auto simp: plain_def)

lemma Clean_nonempty [simp]: "Clean p \<noteq> []"
  using join_sep_nonempty[OF _ clean_elems_plain, of p] by (simp add: Clean_def)

lemma resolve_Clean_join:
  assumes d: "d \<noteq> []" and P: "P = [] \<or> rooted P"
  shows "resolve d P = Clean (d @ CHR ''/'' # Clean P)"
    and "clean_elems (d @ CHR ''/'' # Clean P) = clean_elems d @ elems (Clean P)"
    and "rooted (d @ CHR ''/'' # Clean P) = rooted d"
    and "''..'' \<notin> set (elems (Clean P))"
proof -
  have u: "\<forall>e \<in> set (elems (Clean P)). plain e \<and> e \<noteq> ''..''" using P by (rule request_elems)
  show "resolve d P = Clean (d @ CHR ''/'' # Clean P)" using d by (simp add: resolve_def Join_def)
  show "clean_elems (d @ CHR ''/'' # Clean P) = clean_elems d @ elems (Clean P)"
    using d u by (rule clean_elems_join)
  show "rooted (d @ CHR ''/'' # Clean P) = rooted d" using d by (rule rooted_append)
  show "''..'' \<notin> set (elems (Clean P))" using u by blast
qed

lemma resolve_lies_within:
  assumes d: "d \<noteq> []" and P: "P = [] \<or> rooted P"
  shows "lies_within d (resolve d P)"
  using resolve_Clean_join(4)[OF d P]
  by (simp add: lies_within_def Let_def resolve_Clean_join(1,2,3)[OF d P] elems_Clean rooted_Clean)

text \<open>
  C1. For a serving root that is not the empty string (\<open>main\<close> refuses one) and a request
  path as net/http hands it to a handler, empty or starting with a slash: the path that
  \<open>indexHandler\<close> computes lies within the root, whatever \<open>..\<close>, \<open>.\<close> and repeated
  separators the request path holds; and the empty path and \<open>/\<close> resolve to the root
  itself (in its cleaned form).
\<close>

theorem resolve_within_root:
  assumes d: "d \<noteq> []" and P: "P = [] \<or> rooted P"
  shows "lies_within d (resolve d P) \<and> ((P = [] \<or> P = ''/'') \<longrightarrow> resolve d P = Clean d)"
proof -
  note j = resolve_Clean_join[OF d P]
  have w: "lies_within d (resolve d P)" using d P by (rule resolve_lies_within)
  have "resolve d P = Clean d" if "P = [] \<or> P = ''/''"
  proof -
    have "elems (Clean P) = []"
      using that by (auto simp: elems_Clean clean_elems_def clean_step_def rooted_def)
    then have "clean_elems (d @ CHR ''/'' # Clean P) = clean_elems d" using j(2) by simp
    then show ?thesis unfolding j(1) using d j(3) by (intro Clean_cong) simp_all
  qed
  with w show ?thesis by blast
qed

theorem resolve_within_root_witness:
  "lies_within ''/srv'' (resolve ''/srv'' ''/a/../../etc//./passwd'')
   \<and> resolve ''/srv'' ''/a/../../etc//./passwd'' = ''/srv/etc/passwd''
   \<and> resolve ''/srv'' ''/'' = Clean ''/srv''"
proof -
  have a: "''/srv'' \<noteq> []" by simp
  have b: "''/a/../../etc//./passwd'' = [] \<or> rooted ''/a/../../etc//./passwd''"
    by (simp add: rooted_def)
  have c: "''/'' = [] \<or> rooted ''/''" by (simp add: rooted_def)
  have e: "resolve ''/srv'' ''/a/../../etc//./passwd'' = ''/srv/etc/passwd''"
    by code_simp
  from resolve_within_root[OF a b] resolve_within_root[OF a c] e show ?thesis by simp
qed

text \<open>
  Without the leading slash the statement fails: \<open>Clean\<close> keeps the \<open>..\<close> that begin a
  path that is not rooted, and \<open>Join\<close> then climbs out of the root.
\<close>

lemma resolve_relative_escapes:
  "resolve ''/srv'' ''../etc/passwd'' = ''/etc/passwd''
   \<and> \<not> lies_within ''/srv'' (resolve ''/srv'' ''../etc/passwd'')"
  by code_simp

section \<open>Responses and the two loops\<close>

lemma digit_val_digit_char: "d < 10 \<Longrightarrow> digit_val (digit_char d) = Some d"
proof -
  assume "d < 10"
  then have "d \<in> {0, 1, 2, 3, 4, 5, 6, 7, 8, 9}" by auto
  then show ?thesis
    by (auto simp: digit_val_def digit_char_def)
qed

lemma parse_dec_from_append:
  "parse_dec_from acc (xs @ [c]) =
     (case parse_dec_from acc xs of
        None \<Rightarrow> None
      | Some a \<Rightarrow> (case digit_val c of None \<Rightarrow> None | Some v \<Rightarrow> Some (10 * a + v)))"
  by (induction xs arbitrary: acc) (auto split: option.splits)

lemma parse_dec_from_digits: "parse_dec_from 0 (dec_digits n) = Some n"
proof (induction n rule: dec_digits.induct)
  case (1 n)
  show ?case
  proof (cases "n < 10")
    case True
    then show ?thesis by (subst dec_digits.simps) (simp add: digit_val_digit_char)
  next
    case False
    then have "parse_dec_from 0 (dec_digits (n div 10)) = Some (n div 10)" by (rule 1)
    then show ?thesis using False
      by (subst dec_digits.simps) (simp add: parse_dec_from_append digit_val_digit_char)
  qed
qed

lemma dec_digits_nonempty: "dec_digits n \<noteq> []"
  by (subst dec_digits.simps) simp

lemma parse_dec_sprint_d: "0 \<le> n \<Longrightarrow> parse_dec (sprint_d n) = Some (nat n)"
  by (simp add: parse_dec_def sprint_d_def dec_digits_nonempty parse_dec_from_digits)

lemma WriteHeader_idem: "WriteHeader c (WriteHeader d w) = WriteHeader d w"
  by (simp add: WriteHeader_def)

lemma WriteHeader_fields [simp]:
  "headers (WriteHeader c w) = headers w"
  "chunks (WriteHeader c w) = chunks w"
  "written (WriteHeader c w) = written w"
  "room (WriteHeader c w) = room w"
  "status (WriteHeader c w) \<noteq> None"
  by (simp_all add: WriteHeader_def)

lemma WriteHeader_committed: "status w \<noteq> None \<Longrightarrow> WriteHeader c w = w"
  by (simp add: WriteHeader_def)

lemma WriteHeader_fresh:
  "status w = None \<Longrightarrow> sent_headers (WriteHeader c w) = headers w \<and> status (WriteHeader c w) = Some c"
  by (simp add: WriteHeader_def)

lemma Write_taken:
  assumes "room w = None" and "data \<noteq> []"
    and "case declared w of None \<Rightarrow> True | Some cl \<Rightarrow> written w + length data \<le> cl"
  shows "Write data w = (length data, None,
           (WriteHeader 200 w)\<lparr>written := written w + length data, chunks := chunks w @ [data]\<rparr>)"
  using assms
  by (auto simp: Write_def Let_def declared_def content_length_def split: option.splits)


lemma declared_after_write [simp]:
  "declared ((WriteHeader 200 w)\<lparr>written := a, chunks := b\<rparr>) = declared w"
  by (simp add: declared_def content_length_def WriteHeader_def)

lemma handle_same [simp]: "f\<lparr>pending := pending f\<rparr> = f"
  by simp

lemma stream_loop_done: "\<not> 0 < remaining \<Longrightarrow> stream_loop remaining sent f w = (sent, f, w)"
  by (subst stream_loop.simps) simp

lemma stream_loop_eof:
  "0 < remaining \<Longrightarrow> pending f = [] \<Longrightarrow> stream_loop remaining sent f w = (sent, f, w)"
  by (subst stream_loop.simps) (simp add: file_Read_def buf_len_def Let_def)

lemma stream_loop_step:
  assumes "0 < remaining" "pending f \<noteq> []"
    and "t = min (nat remaining) buf_len"
    and "Write (take t (pending f)) w = (length (take t (pending f)), None, w1)"
  shows "stream_loop remaining sent f w =
           stream_loop (remaining - int (length (take t (pending f))))
             (sent + int (length (take t (pending f))))
             (f\<lparr>pending := drop t (pending f)\<rparr>) w1"
proof -
  have t: "nat (if remaining < int buf_len then remaining else int buf_len) = t"
    using assms(1,3) by (auto simp: min_def)
  have t0: "0 < t" using assms(1,3) by (simp add: buf_len_def)
  have rd: "file_Read t f = (take t (pending f), None, f\<lparr>pending := drop t (pending f)\<rparr>)"
    using assms(2) t0 by (simp add: file_Read_def)
  have ne: "take t (pending f) \<noteq> []" using assms(2) t0 by simp
  show ?thesis
    using assms(1) ne
    by (subst stream_loop.simps) (simp add: Let_def t rd assms(4))
qed

lemma stream_loop_healthy:
  assumes "\<not> failing f" "room w = None" "declared w = Some cl" "written w + nat remaining \<le> cl"
  shows "\<exists>w'. stream_loop remaining sent f w =
              (sent + int (min (nat remaining) (length (pending f))),
               f\<lparr>pending := drop (nat remaining) (pending f)\<rparr>, w')
           \<and> body w' = body w @ take (nat remaining) (pending f)
           \<and> headers w' = headers w \<and> declared w' = declared w \<and> room w' = None
           \<and> written w' = written w + min (nat remaining) (length (pending f))
           \<and> (status w \<noteq> None \<or> (0 < remaining \<and> pending f \<noteq> []) \<longrightarrow> status w' \<noteq> None)"
  using assms
proof (induction "nat remaining" arbitrary: remaining sent f w rule: less_induct)
  case less
  show ?case
  proof (cases "0 < remaining")
    case False
    then show ?thesis using less.prems(2) by (simp add: stream_loop_done)
  next
    case pos: True
    show ?thesis
    proof (cases "pending f = []")
      case True
      then show ?thesis using pos less.prems(2) by (simp add: stream_loop_eof)
    next
      case ne: False
      define t where "t = min (nat remaining) buf_len"
      define data where "data = take t (pending f)"
      define w1 where "w1 = (WriteHeader 200 w)\<lparr>written := written w + length data,
                                               chunks := chunks w @ [data]\<rparr>"
      define f1 where "f1 = f\<lparr>pending := drop t (pending f)\<rparr>"
      have t0: "0 < t" using pos by (simp add: t_def buf_len_def)
      have tr: "t \<le> nat remaining" by (simp add: t_def)
      have dne: "data \<noteq> []" using ne t0 by (simp add: data_def)
      have dl: "length data = min t (length (pending f))" by (simp add: data_def min.commute)
      have fits: "written w + length data \<le> cl" using less.prems(4) tr dl by simp
      have wr: "Write data w = (length data, None, w1)"
        unfolding w1_def using less.prems(2) dne fits less.prems(3)
        by (intro Write_taken) simp_all
      have step: "stream_loop remaining sent f w =
                    stream_loop (remaining - int (length data)) (sent + int (length data)) f1 w1"
        unfolding data_def f1_def
        using pos ne t_def wr[unfolded data_def] by (rule stream_loop_step)
      have dpos: "0 < length data" using dne by simp
      have smaller: "nat (remaining - int (length data)) < nat remaining"
        using pos dpos by linarith
      have p1: "\<not> failing f1" using less.prems(1) by (simp add: f1_def)
      have p2: "room w1 = None" using less.prems(2) by (simp add: w1_def)
      have p3: "declared w1 = Some cl" using less.prems(3) by (simp add: w1_def)
      have p4: "written w1 + nat (remaining - int (length data)) \<le> cl"
        using less.prems(4) tr dl by (simp add: w1_def)
      from less.hyps[OF smaller p1 p2 p3 p4, of "sent + int (length data)"]
      obtain w' where
        r: "stream_loop (remaining - int (length data)) (sent + int (length data)) f1 w1 =
              (sent + int (length data)
                 + int (min (nat (remaining - int (length data))) (length (pending f1))),
               f1\<lparr>pending := drop (nat (remaining - int (length data))) (pending f1)\<rparr>, w')"
        and b: "body w' = body w1 @ take (nat (remaining - int (length data))) (pending f1)"
        and h: "headers w' = headers w1" "declared w' = declared w1" "room w' = None"
        and wn: "written w' = written w1
                   + min (nat (remaining - int (length data))) (length (pending f1))"
        and sn: "status w1 \<noteq> None \<or> (0 < remaining - int (length data) \<and> pending f1 \<noteq> [])
                   \<longrightarrow> status w' \<noteq> None"
        by blast
      have "status w1 \<noteq> None" by (simp add: w1_def)
      with sn have st: "status w' \<noteq> None" by simp
      have nr: "nat (remaining - int (length data)) = nat remaining - length data" by simp
      have e1: "length data + min (nat remaining - length data) (length (pending f1))
                  = min (nat remaining) (length (pending f))"
        using tr dl by (auto simp: f1_def min_def)
      have e2: "drop (nat remaining - length data) (pending f1) = drop (nat remaining) (pending f)"
      proof (cases "length (pending f) \<le> t")
        case True
        then show ?thesis using tr by (simp add: f1_def)
      next
        case False
        then have "length data = t" using dl by simp
        then show ?thesis using tr by (simp add: f1_def)
      qed
      have e3: "data @ take (nat remaining - length data) (pending f1)
                  = take (nat remaining) (pending f)"
      proof (cases "length (pending f) \<le> t")
        case True
        then show ?thesis using tr by (simp add: f1_def data_def)
      next
        case False
        then have "length data = t" using dl by simp
        moreover have "take t (pending f) @ take (nat remaining - t) (drop t (pending f))
                         = take (t + (nat remaining - t)) (pending f)"
          by (simp only: take_add)
        ultimately show ?thesis using tr by (simp add: f1_def data_def)
      qed
      have g1: "sent + int (length data)
                  + int (min (nat (remaining - int (length data))) (length (pending f1)))
                = sent + int (min (nat remaining) (length (pending f)))"
        unfolding nr using e1 by linarith
      have upd: "f1\<lparr>pending := X\<rparr> = f\<lparr>pending := X\<rparr>" for X by (simp add: f1_def)
      have g2: "f1\<lparr>pending := drop (nat (remaining - int (length data))) (pending f1)\<rparr>
                = f\<lparr>pending := drop (nat remaining) (pending f)\<rparr>"
        unfolding nr e2 by (rule upd)
      have "stream_loop remaining sent f w =
              (sent + int (min (nat remaining) (length (pending f))),
               f\<lparr>pending := drop (nat remaining) (pending f)\<rparr>, w')"
        unfolding step r g1 g2 by (rule refl)
      moreover have "body w' = body w @ take (nat remaining) (pending f)"
        using b nr e3 by (simp add: body_def w1_def)
      moreover have "headers w' = headers w" using h(1) by (simp add: w1_def)
      moreover have "declared w' = declared w" using h(2) by (simp add: w1_def)
      moreover have "written w' = written w + min (nat remaining) (length (pending f))"
        using wn nr e1 by (simp add: w1_def)
      ultimately show ?thesis using h(3) st by blast
    qed
  qed
qed


lemma wrote_refl [simp]: "wrote w w"
  by (simp add: wrote_def)

lemma wrote_trans: "wrote a b \<Longrightarrow> wrote b c \<Longrightarrow> wrote a c"
  by (auto simp: wrote_def)

lemma Write_cases:
  obtains nw ew w1 where "Write data w = (nw, ew, w1)"
  by (cases "Write data w") auto

lemma Write_wrote:
  assumes "Write data w = (nw, ew, w1)" and "length data \<le> buf_len"
  shows "wrote w w1"
proof -
  have c: "status (WriteHeader 200 w) \<noteq> None" by simp
  show ?thesis
    using assms c
    by (auto simp: Write_def Let_def wrote_def WriteHeader_committed
             split: if_splits option.splits)
qed

lemma Write_commits:
  "Write data w = (nw, ew, w1) \<Longrightarrow>
     status w1 = status (WriteHeader 200 w) \<and> sent_headers w1 = sent_headers (WriteHeader 200 w)"
  by (auto simp: Write_def Let_def split: if_splits option.splits)

lemma stream_loop_step_any:
  assumes "0 < remaining" "pending f \<noteq> []"
    and "t = min (nat remaining) buf_len"
    and "Write (take t (pending f)) w = (nw, ew, w1)"
  shows "stream_loop remaining sent f w =
           (if ew \<noteq> None \<or> nw \<noteq> length (take t (pending f))
            then (sent, f\<lparr>pending := drop t (pending f)\<rparr>, w1)
            else stream_loop (remaining - int nw) (sent + int nw)
                   (f\<lparr>pending := drop t (pending f)\<rparr>) w1)"
proof -
  have t: "nat (if remaining < int buf_len then remaining else int buf_len) = t"
    using assms(1,3) by (auto simp: min_def)
  have t0: "0 < t" using assms(1,3) by (simp add: buf_len_def)
  have rd: "file_Read t f = (take t (pending f), None, f\<lparr>pending := drop t (pending f)\<rparr>)"
    using assms(2) t0 by (simp add: file_Read_def)
  have ne: "take t (pending f) \<noteq> []" using assms(2) t0 by simp
  show ?thesis
    using assms(1) ne
    by (subst stream_loop.simps) (simp add: Let_def t rd assms(4))
qed

lemma stream_loop_any:
  "\<exists>k s' w'. stream_loop remaining sent f w = (s', f\<lparr>pending := drop k (pending f)\<rparr>, w')
      \<and> k \<le> nat remaining \<and> k \<le> length (pending f)
      \<and> sent \<le> s' \<and> s' \<le> sent + int k \<and> wrote w w'"
proof (induction "nat remaining" arbitrary: remaining sent f w rule: less_induct)
  case less
  show ?case
  proof (cases "0 < remaining")
    case False
    then have "stream_loop remaining sent f w = (sent, f\<lparr>pending := drop 0 (pending f)\<rparr>, w)"
      by (simp add: stream_loop_done)
    then show ?thesis by (intro exI[of _ 0] exI[of _ sent] exI[of _ w]) simp
  next
    case pos: True
    show ?thesis
    proof (cases "pending f = []")
      case True
      then have "stream_loop remaining sent f w = (sent, f\<lparr>pending := drop 0 (pending f)\<rparr>, w)"
        using pos by (simp add: stream_loop_eof)
      then show ?thesis by (intro exI[of _ 0] exI[of _ sent] exI[of _ w]) simp
    next
      case ne: False
      define t where "t = min (nat remaining) buf_len"
      define data where "data = take t (pending f)"
      define f1 where "f1 = f\<lparr>pending := drop t (pending f)\<rparr>"
      obtain nw ew w1 where wr: "Write data w = (nw, ew, w1)" by (rule Write_cases)
      have t0: "0 < t" using pos by (simp add: t_def buf_len_def)
      have tr: "t \<le> nat remaining" and tb: "t \<le> buf_len" by (simp_all add: t_def)
      have dl: "length data = min t (length (pending f))" by (simp add: data_def min.commute)
      have dpos: "0 < length data" using ne t0 by (simp add: data_def)
      have w1: "wrote w w1" using wr dl tb by (intro Write_wrote[of data w nw ew w1]) simp_all
      have f1d: "f1 = f\<lparr>pending := drop (length data) (pending f)\<rparr>"
        using dl by (cases "length (pending f) \<le> t") (simp_all add: f1_def)
      have step: "stream_loop remaining sent f w =
           (if ew \<noteq> None \<or> nw \<noteq> length data then (sent, f1, w1)
            else stream_loop (remaining - int nw) (sent + int nw) f1 w1)"
        unfolding data_def f1_def
        using pos ne t_def wr[unfolded data_def] by (rule stream_loop_step_any)
      show ?thesis
      proof (cases "ew \<noteq> None \<or> nw \<noteq> length data")
        case True
        then have "stream_loop remaining sent f w
                     = (sent, f\<lparr>pending := drop (length data) (pending f)\<rparr>, w1)"
          using step f1d by simp
        moreover have "length data \<le> nat remaining" "length data \<le> length (pending f)"
          using dl tr by simp_all
        ultimately show ?thesis using w1 by (intro exI[of _ "length data"] exI[of _ sent] exI[of _ w1]) simp
      next
        case False
        then have nw: "nw = length data" by simp
        have smaller: "nat (remaining - int nw) < nat remaining" using pos dpos nw by linarith
        from less.hyps[OF smaller, of "sent + int nw" f1 w1]
        obtain k s' w' where
          r: "stream_loop (remaining - int nw) (sent + int nw) f1 w1
                = (s', f1\<lparr>pending := drop k (pending f1)\<rparr>, w')"
          and k: "k \<le> nat (remaining - int nw)" "k \<le> length (pending f1)"
          and s: "sent + int nw \<le> s'" "s' \<le> sent + int nw + int k"
          and w': "wrote w1 w'"
          by blast
        have pf1: "pending f1 = drop (length data) (pending f)" by (subst f1d) simp
        have upd: "f1\<lparr>pending := X\<rparr> = f\<lparr>pending := X\<rparr>" for X by (simp add: f1_def)
        have g: "f1\<lparr>pending := drop k (pending f1)\<rparr>
                   = f\<lparr>pending := drop (k + length data) (pending f)\<rparr>"
          unfolding pf1 drop_drop by (rule upd)
        have "stream_loop remaining sent f w
                = (s', f\<lparr>pending := drop (k + length data) (pending f)\<rparr>, w')"
          using step False r g by simp
        moreover have "length data \<le> nat remaining" using dl tr by simp
        then have "k + length data \<le> nat remaining" using k(1) nw pos by linarith
        moreover have "k + length data \<le> length (pending f)" using k(2) pf1 dl by simp
        moreover have "sent \<le> s'" using s(1) by simp
        moreover have "s' \<le> sent + int (k + length data)" using s(2) nw by simp
        moreover have "wrote w w'" using w1 w' by (rule wrote_trans)
        ultimately show ?thesis by blast
      qed
    qed
  qed
qed

section \<open>The speed test\<close>

lemma Header_Set_fields [simp]:
  "status (Header_Set k v w) = status w"
  "sent_headers (Header_Set k v w) = sent_headers w"
  "chunks (Header_Set k v w) = chunks w"
  "written (Header_Set k v w) = written w"
  "room (Header_Set k v w) = room w"
  "headers (Header_Set k v w) = (headers w)(k \<mapsto> v)"
  "body (Header_Set k v w) = body w"
  by (simp_all add: Header_Set_def body_def)

lemma declared_fresh:
  "status w = None \<Longrightarrow> headers w ''Content-Length'' = Some v \<Longrightarrow> declared w = parse_dec v"
  by (simp add: declared_def content_length_def WriteHeader_def)

lemma budget_pos: "0 < budget cfg"
  by (simp add: budget_def)

lemma speed_transfer_alt:
  "speed_transfer cfg f w = stream_loop (budget cfg) 0 f (speed_headers cfg w)"
  by (simp add: speed_transfer_def speed_headers_def Let_def)

lemma speed_headers_declared:
  "status w = None \<Longrightarrow> declared (speed_headers cfg w) = Some (nat (budget cfg))"
proof -
  assume "status w = None"
  then have "declared (speed_headers cfg w) = parse_dec (sprint_d (budget cfg))"
    by (intro declared_fresh) (simp_all add: speed_headers_def)
  then show ?thesis using budget_pos[of cfg] by (simp add: parse_dec_sprint_d)
qed

lemma speed_transfer_healthy:
  assumes "\<not> failing f" "status w = None" "written w = 0" "room w = None"
  shows "\<exists>f' w'. speed_transfer cfg f w = (min (budget cfg) (int (length (pending f))), f', w')
           \<and> body w' = body w @ take (nat (budget cfg)) (pending f)"
proof -
  let ?w = "speed_headers cfg w"
  have a: "room ?w = None" using assms(4) by (simp add: speed_headers_def)
  have b: "declared ?w = Some (nat (budget cfg))" using assms(2) by (rule speed_headers_declared)
  have c: "written ?w + nat (budget cfg) \<le> nat (budget cfg)"
    using assms(3) by (simp add: speed_headers_def)
  from stream_loop_healthy[OF assms(1) a b c, of 0]
  obtain w' where
    r: "stream_loop (budget cfg) 0 f ?w =
          (0 + int (min (nat (budget cfg)) (length (pending f))),
           f\<lparr>pending := drop (nat (budget cfg)) (pending f)\<rparr>, w')"
    and bd: "body w' = body ?w @ take (nat (budget cfg)) (pending f)"
    by blast
  have m: "0 + int (min (nat (budget cfg)) (length (pending f)))
             = min (budget cfg) (int (length (pending f)))"
    using budget_pos[of cfg] by (auto simp: min_def)
  have "speed_transfer cfg f w = (min (budget cfg) (int (length (pending f))),
          f\<lparr>pending := drop (nat (budget cfg)) (pending f)\<rparr>, w')"
    unfolding speed_transfer_alt r m by (rule refl)
  moreover have "body w' = body w @ take (nat (budget cfg)) (pending f)"
    using bd by (simp add: speed_headers_def)
  ultimately show ?thesis by blast
qed

lemma speed_transfer_any:
  "\<exists>k s' w'. speed_transfer cfg f w = (s', f\<lparr>pending := drop k (pending f)\<rparr>, w')
      \<and> int k \<le> budget cfg \<and> k \<le> length (pending f) \<and> 0 \<le> s' \<and> s' \<le> int k
      \<and> wrote (speed_headers cfg w) w'"
proof -
  from stream_loop_any[of "budget cfg" 0 f "speed_headers cfg w"]
  obtain k s' w' where
    "stream_loop (budget cfg) 0 f (speed_headers cfg w) = (s', f\<lparr>pending := drop k (pending f)\<rparr>, w')"
    "k \<le> nat (budget cfg)" "k \<le> length (pending f)" "0 \<le> s'" "s' \<le> 0 + int k"
    "wrote (speed_headers cfg w) w'"
    by blast
  then show ?thesis using budget_pos[of cfg]
    by (intro exI[of _ k] exI[of _ s'] exI[of _ w']) (simp add: speed_transfer_alt)
qed

lemma speedTestHandler_run:
  assumes "select_target W cfg r = Some target" "os_Open W target = Some f"
    and "speed_transfer cfg f w = (sent, f1, w1)"
  shows "speedTestHandler W cfg r w =
           (Fprint (json_marshal W (speed_result W target sent))
              (Header_Set ''Content-Type'' ''application/json'' w1),
            [JsonLine (json_marshal W (speed_result W target sent))])"
  using assms by (simp add: speedTestHandler_def Let_def)

text \<open>
  C2. A run of \<open>/speedtest\<close> with a configured budget \<open>N > 0\<close>, on a source file that reads
  without a fault and a connection that takes every byte: the loop hands
  \<open>min N (size of the file)\<close> bytes to the response, namely the first \<open>N\<close> bytes of the file
  (all of it when it is shorter), and the report that is logged carries that number as
  \<open>bytes_sent\<close>. In every run, whatever the file and the connection do, the bytes read
  from the file are at most \<open>N\<close>, and so are the bytes counted as sent.
\<close>

theorem speedtest_sends_budget:
  assumes N: "0 < speedBytes cfg"
    and sel: "select_target W cfg r = Some target"
    and opn: "os_Open W target = Some f"
    and ok: "\<not> failing f" "status w = None" "written w = 0" "room w = None"
  shows "(\<exists>f' w'. speed_transfer cfg f w = (min (speedBytes cfg) (int (length (pending f))), f', w')
            \<and> body w' = body w @ take (nat (speedBytes cfg)) (pending f)
            \<and> (speedBytes cfg \<le> int (length (pending f)) \<longrightarrow>
                  length (take (nat (speedBytes cfg)) (pending f)) = nat (speedBytes cfg))
            \<and> (int (length (pending f)) < speedBytes cfg \<longrightarrow>
                  take (nat (speedBytes cfg)) (pending f) = pending f))
       \<and> snd (speedTestHandler W cfg r w) =
            [JsonLine (json_marshal W
               (speed_result W target (min (speedBytes cfg) (int (length (pending f))))))]
       \<and> bytes_sent (speed_result W target (min (speedBytes cfg) (int (length (pending f)))))
            = min (speedBytes cfg) (int (length (pending f)))
       \<and> (\<forall>g v. \<exists>k s' v'. speed_transfer cfg g v = (s', g\<lparr>pending := drop k (pending g)\<rparr>, v')
              \<and> int k \<le> speedBytes cfg \<and> k \<le> length (pending g) \<and> s' \<le> int k)"
proof -
  have b: "budget cfg = speedBytes cfg" using N by (simp add: budget_def)
  from speed_transfer_healthy[OF ok, of cfg]
  obtain f' w' where
    t: "speed_transfer cfg f w = (min (speedBytes cfg) (int (length (pending f))), f', w')"
    and bd: "body w' = body w @ take (nat (speedBytes cfg)) (pending f)"
    unfolding b by blast
  have l1: "speedBytes cfg \<le> int (length (pending f)) \<longrightarrow>
              length (take (nat (speedBytes cfg)) (pending f)) = nat (speedBytes cfg)"
    by auto
  have l2: "int (length (pending f)) < speedBytes cfg \<longrightarrow>
              take (nat (speedBytes cfg)) (pending f) = pending f"
    by auto
  have lg: "snd (speedTestHandler W cfg r w) =
            [JsonLine (json_marshal W
               (speed_result W target (min (speedBytes cfg) (int (length (pending f))))))]"
    using speedTestHandler_run[OF sel opn t] by simp
  have bs: "bytes_sent (speed_result W target (min (speedBytes cfg) (int (length (pending f)))))
              = min (speedBytes cfg) (int (length (pending f)))"
    by (simp add: speed_result_def)
  have al: "\<forall>g v. \<exists>k s' v'. speed_transfer cfg g v = (s', g\<lparr>pending := drop k (pending g)\<rparr>, v')
              \<and> int k \<le> speedBytes cfg \<and> k \<le> length (pending g) \<and> s' \<le> int k"
    using speed_transfer_any[of cfg] unfolding b by blast
  from t bd l1 l2 lg bs al show ?thesis by blast
qed


theorem speedtest_sends_budget_witness:
  "\<exists>f' w'. speed_transfer \<lparr>dir = ''/srv'', speedBytes = 4\<rparr>
              \<lparr>pending = ''0123456789'', failing = False\<rparr> (new_response None) = (4, f', w')
           \<and> body w' = ''0123''"
proof -
  let ?cfg = "\<lparr>dir = ''/srv'', speedBytes = 4\<rparr>"
  let ?r = "\<lparr>url_path = ''/speedtest'', range_hdr = [], file_param = ''b/movie.MKV''\<rparr>"
  let ?f = "\<lparr>pending = ''0123456789'', failing = False\<rparr>"
  have N: "0 < speedBytes ?cfg" by simp
  have sel: "select_target demo_world ?cfg ?r = Some ''/srv/b/movie.MKV''" by code_simp
  have opn: "os_Open demo_world ''/srv/b/movie.MKV'' = Some ?f" by code_simp
  have ok: "\<not> failing ?f" "status (new_response None) = None"
    "written (new_response None) = 0" "room (new_response None) = None"
    by (simp_all add: new_response_def)
  from speedtest_sends_budget[OF N sel opn ok, THEN conjunct1]
  obtain f' w' where
    "speed_transfer ?cfg ?f (new_response None) = (min (speedBytes ?cfg) (int (length (pending ?f))), f', w')"
    "body w' = body (new_response None) @ take (nat (speedBytes ?cfg)) (pending ?f)"
    by blast
  then have "speed_transfer ?cfg ?f (new_response None) = (4, f', w')" "body w' = ''0123''"
    by (simp_all add: new_response_def body_def)
  then show ?thesis by blast
qed

lemma sent_after_Header_Set:
  "k' \<noteq> k \<Longrightarrow>
     sent_headers (WriteHeader 200 (Header_Set k v w)) k' = sent_headers (WriteHeader 200 w) k'"
  by (simp add: WriteHeader_def Header_Set_def)

lemma Fprint_commits: "sent_headers (Fprint s w) = sent_headers (WriteHeader 200 w)"
proof -
  obtain nw ew w1 where wr: "Write s w = (nw, ew, w1)" by (rule Write_cases)
  then show ?thesis using Write_commits[OF wr] by (simp add: Fprint_def)
qed

lemma speed_headers_sent:
  assumes "status w = None" "wrote (speed_headers cfg w) w'"
  shows "sent_headers (WriteHeader 200 w') ''Content-Length'' = Some (sprint_d (budget cfg))"
    and "sent_headers (WriteHeader 200 w') ''Content-Type'' = Some ''application/octet-stream''"
proof -
  have "status (speed_headers cfg w) = None" using assms(1) by (simp add: speed_headers_def)
  then have "sent_headers (WriteHeader 200 w') = headers (speed_headers cfg w)"
    using assms(2) by (simp add: wrote_def WriteHeader_fresh)
  then show "sent_headers (WriteHeader 200 w') ''Content-Length'' = Some (sprint_d (budget cfg))"
    and "sent_headers (WriteHeader 200 w') ''Content-Type'' = Some ''application/octet-stream''"
    by (simp_all add: speed_headers_def)
qed

lemma speed_transfer_reads:
  assumes "\<not> failing f" "status w = None" "written w = 0" "room w = None"
  shows "\<exists>w'. speed_transfer cfg f w =
              (min (budget cfg) (int (length (pending f))),
               f\<lparr>pending := drop (nat (budget cfg)) (pending f)\<rparr>, w')
           \<and> body w' = body w @ take (nat (budget cfg)) (pending f)"
proof -
  let ?w = "speed_headers cfg w"
  have a: "room ?w = None" using assms(4) by (simp add: speed_headers_def)
  have b: "declared ?w = Some (nat (budget cfg))" using assms(2) by (rule speed_headers_declared)
  have c: "written ?w + nat (budget cfg) \<le> nat (budget cfg)"
    using assms(3) by (simp add: speed_headers_def)
  from stream_loop_healthy[OF assms(1) a b c, of 0]
  obtain w' where
    r: "stream_loop (budget cfg) 0 f ?w =
          (0 + int (min (nat (budget cfg)) (length (pending f))),
           f\<lparr>pending := drop (nat (budget cfg)) (pending f)\<rparr>, w')"
    and bd: "body w' = body ?w @ take (nat (budget cfg)) (pending f)"
    by blast
  have m: "0 + int (min (nat (budget cfg)) (length (pending f)))
             = min (budget cfg) (int (length (pending f)))"
    using budget_pos[of cfg] by (auto simp: min_def)
  have "speed_transfer cfg f w = (min (budget cfg) (int (length (pending f))),
          f\<lparr>pending := drop (nat (budget cfg)) (pending f)\<rparr>, w')"
    unfolding speed_transfer_alt r m by (rule refl)
  moreover have "body w' = body w @ take (nat (budget cfg)) (pending f)"
    using bd by (simp add: speed_headers_def)
  ultimately show ?thesis by blast
qed

text \<open>
  C10. The budget that \<open>/speedtest\<close> uses is positive for every configuration: a
  configured value of zero or less is replaced by \<open>50 * 2^20\<close>, any other is kept. It is
  the budget used. The \<open>Content-Length\<close> that is sent is its decimal form, and the bytes
  read from the source never exceed it. It is the cap of the loop: with a configured value
  of zero or less, a source that reads without a fault, on a connection that takes every
  byte, is read and sent up to its byte number \<open>50 * 2^20\<close>, no further and no less, or to
  its end when it is shorter.
\<close>

theorem speedtest_default_budget:
  "0 < budget cfg
   \<and> (speedBytes cfg \<le> 0 \<longrightarrow> budget cfg = 50 * 2 ^ 20)
   \<and> (0 < speedBytes cfg \<longrightarrow> budget cfg = speedBytes cfg)
   \<and> (status w = None \<longrightarrow>
        (\<exists>k s' w'. speed_transfer cfg f w = (s', f\<lparr>pending := drop k (pending f)\<rparr>, w')
           \<and> int k \<le> budget cfg \<and> k \<le> length (pending f)
           \<and> sent_headers (finish w') ''Content-Length'' = Some (sprint_d (budget cfg))))
   \<and> (status w = None \<and> select_target W cfg r = Some target \<and> os_Open W target = Some f \<longrightarrow>
        sent_headers (fst (speedTestHandler W cfg r w)) ''Content-Length''
          = Some (sprint_d (budget cfg)))
   \<and> (speedBytes cfg \<le> 0 \<and> \<not> failing f \<and> status w = None \<and> written w = 0 \<and> room w = None \<longrightarrow>
        (\<exists>w'. speed_transfer cfg f w =
                 (min (50 * 2 ^ 20) (int (length (pending f))),
                  f\<lparr>pending := drop (50 * 2 ^ 20) (pending f)\<rparr>, w')
           \<and> body w' = body w @ take (50 * 2 ^ 20) (pending f)))"
proof -
  from speed_transfer_any[of cfg f w]
  obtain k s' w' where
    t: "speed_transfer cfg f w = (s', f\<lparr>pending := drop k (pending f)\<rparr>, w')"
    and k: "int k \<le> budget cfg" "k \<le> length (pending f)"
    and wr: "wrote (speed_headers cfg w) w'"
    by blast
  have cl: "sent_headers (finish w') ''Content-Length'' = Some (sprint_d (budget cfg))"
    if "status w = None"
    unfolding finish_def using that wr by (rule speed_headers_sent(1))
  have hd: "sent_headers (fst (speedTestHandler W cfg r w)) ''Content-Length''
              = Some (sprint_d (budget cfg))"
    if "status w = None" "select_target W cfg r = Some target" "os_Open W target = Some f"
  proof -
    have "fst (speedTestHandler W cfg r w) =
            Fprint (json_marshal W (speed_result W target s'))
              (Header_Set ''Content-Type'' ''application/json'' w')"
      using speedTestHandler_run[OF that(2,3) t] by simp
    then have "sent_headers (fst (speedTestHandler W cfg r w)) ''Content-Length''
                 = sent_headers (WriteHeader 200 w') ''Content-Length''"
      by (simp add: Fprint_commits sent_after_Header_Set)
    then show ?thesis using speed_headers_sent(1)[OF that(1) wr] by simp
  qed
  have b: "0 < budget cfg" "speedBytes cfg \<le> 0 \<longrightarrow> budget cfg = 50 * 2 ^ 20"
    "0 < speedBytes cfg \<longrightarrow> budget cfg = speedBytes cfg"
    by (simp_all add: budget_def)
  have ex: "status w = None \<longrightarrow>
        (\<exists>k s' w'. speed_transfer cfg f w = (s', f\<lparr>pending := drop k (pending f)\<rparr>, w')
           \<and> int k \<le> budget cfg \<and> k \<le> length (pending f)
           \<and> sent_headers (finish w') ''Content-Length'' = Some (sprint_d (budget cfg)))"
    using t k cl by blast
  have hd': "status w = None \<and> select_target W cfg r = Some target \<and> os_Open W target = Some f \<longrightarrow>
        sent_headers (fst (speedTestHandler W cfg r w)) ''Content-Length''
          = Some (sprint_d (budget cfg))"
    using hd by blast
  have cap: "speedBytes cfg \<le> 0 \<and> \<not> failing f \<and> status w = None \<and> written w = 0 \<and> room w = None \<longrightarrow>
        (\<exists>w'. speed_transfer cfg f w =
                 (min (50 * 2 ^ 20) (int (length (pending f))),
                  f\<lparr>pending := drop (50 * 2 ^ 20) (pending f)\<rparr>, w')
           \<and> body w' = body w @ take (50 * 2 ^ 20) (pending f))"
  proof
    assume a: "speedBytes cfg \<le> 0 \<and> \<not> failing f \<and> status w = None \<and> written w = 0 \<and> room w = None"
    then have bb: "budget cfg = 50 * 2 ^ 20" by (simp add: budget_def)
    have n: "nat (50 * 2 ^ 20 :: int) = 50 * 2 ^ 20" by simp
    from a have ok: "\<not> failing f" "status w = None" "written w = 0" "room w = None" by simp_all
    from speed_transfer_reads[OF ok, of cfg]
    show "\<exists>w'. speed_transfer cfg f w =
                 (min (50 * 2 ^ 20) (int (length (pending f))),
                  f\<lparr>pending := drop (50 * 2 ^ 20) (pending f)\<rparr>, w')
           \<and> body w' = body w @ take (50 * 2 ^ 20) (pending f)"
      unfolding bb n .
  qed
  show ?thesis
    by (intro conjI b ex hd' cap)
qed

lemma sprint_d_default: "sprint_d 52428800 = ''52428800''"
  by (simp add: sprint_d_def dec_digits.simps digit_char_def)

theorem speedtest_default_budget_witness:
  "budget \<lparr>dir = ''/srv'', speedBytes = 0\<rparr> = 52428800
   \<and> sent_headers (fst (speedTestHandler demo_world \<lparr>dir = ''/srv'', speedBytes = 0\<rparr>
          \<lparr>url_path = ''/speedtest'', range_hdr = [], file_param = ''b/movie.MKV''\<rparr>
          (new_response None))) ''Content-Length'' = Some ''52428800''
   \<and> (\<exists>w'. speed_transfer \<lparr>dir = ''/srv'', speedBytes = 0\<rparr>
              \<lparr>pending = ''0123456789'', failing = False\<rparr> (new_response None)
            = (10, \<lparr>pending = [], failing = False\<rparr>, w')
          \<and> body w' = ''0123456789'')
   \<and> (\<exists>w'. speed_transfer \<lparr>dir = ''/srv'', speedBytes = 0\<rparr>
              \<lparr>pending = replicate 52428803 (CHR ''x''), failing = False\<rparr> (new_response None)
            = (52428800, \<lparr>pending = ''xxx'', failing = False\<rparr>, w')
          \<and> body w' = replicate 52428800 (CHR ''x''))"
proof -
  let ?cfg = "\<lparr>dir = ''/srv'', speedBytes = 0\<rparr>"
  let ?r = "\<lparr>url_path = ''/speedtest'', range_hdr = [], file_param = ''b/movie.MKV''\<rparr>"
  let ?f = "\<lparr>pending = ''0123456789'', failing = False\<rparr>"
  let ?g = "\<lparr>pending = replicate 52428803 (CHR ''x''), failing = False\<rparr>"
  have sel: "select_target demo_world ?cfg ?r = Some ''/srv/b/movie.MKV''" by code_simp
  have opn: "os_Open demo_world ''/srv/b/movie.MKV'' = Some ?f" by code_simp
  have st: "status (new_response None) = None" by (simp add: new_response_def)
  have le: "speedBytes ?cfg \<le> 0" by simp
  note inst = speedtest_default_budget[of ?cfg "new_response None" ?f demo_world ?r
      "''/srv/b/movie.MKV''"]
  have "budget ?cfg = 50 * 2 ^ 20"
    using inst[THEN conjunct2, THEN conjunct1] le by (rule mp)
  then have b: "budget ?cfg = 52428800" by simp
  have "status (new_response None) = None \<and> select_target demo_world ?cfg ?r = Some ''/srv/b/movie.MKV''
          \<and> os_Open demo_world ''/srv/b/movie.MKV'' = Some ?f"
    using sel opn st by (intro conjI)
  with inst[THEN conjunct2, THEN conjunct2, THEN conjunct2, THEN conjunct2, THEN conjunct1]
  have "sent_headers (fst (speedTestHandler demo_world ?cfg ?r (new_response None))) ''Content-Length''
          = Some (sprint_d (budget ?cfg))"
    by (rule mp)
  then have h: "sent_headers (fst (speedTestHandler demo_world ?cfg ?r (new_response None)))
                  ''Content-Length'' = Some ''52428800''"
    unfolding b sprint_d_default .
  have pre: "speedBytes ?cfg \<le> 0 \<and> \<not> failing h \<and> status (new_response None) = None
               \<and> written (new_response None) = 0 \<and> room (new_response None) = None"
    if "\<not> failing h" for h
    using that by (simp add: new_response_def)
  have "\<exists>w'. speed_transfer ?cfg ?f (new_response None) =
                 (min (50 * 2 ^ 20) (int (length (pending ?f))),
                  ?f\<lparr>pending := drop (50 * 2 ^ 20) (pending ?f)\<rparr>, w')
           \<and> body w' = body (new_response None) @ take (50 * 2 ^ 20) (pending ?f)"
    using inst[THEN conjunct2, THEN conjunct2, THEN conjunct2, THEN conjunct2, THEN conjunct2]
      pre[of ?f]
    by simp
  then have small: "\<exists>w'. speed_transfer ?cfg ?f (new_response None)
                       = (10, \<lparr>pending = [], failing = False\<rparr>, w')
                     \<and> body w' = ''0123456789''"
    by (simp add: new_response_def body_def)
  have "\<exists>w'. speed_transfer ?cfg ?g (new_response None) =
                 (min (50 * 2 ^ 20) (int (length (pending ?g))),
                  ?g\<lparr>pending := drop (50 * 2 ^ 20) (pending ?g)\<rparr>, w')
           \<and> body w' = body (new_response None) @ take (50 * 2 ^ 20) (pending ?g)"
    using speedtest_default_budget[of ?cfg "new_response None" ?g demo_world ?r
        "''/srv/b/movie.MKV''", THEN conjunct2, THEN conjunct2, THEN conjunct2, THEN conjunct2,
        THEN conjunct2]
      pre[of ?g]
    by simp
  moreover have "replicate (52428803 - 52428800) (CHR ''x'') = ''xxx''"
    by (simp add: numeral_3_eq_3)
  ultimately have large: "\<exists>w'. speed_transfer ?cfg ?g (new_response None)
                       = (52428800, \<lparr>pending = ''xxx'', failing = False\<rparr>, w')
                     \<and> body w' = replicate 52428800 (CHR ''x'')"
    by (simp add: new_response_def body_def)
  from b h small large show ?thesis by (intro conjI)
qed

section \<open>Serving a file\<close>

lemma copy_loop_eof:
  "pending src = [] \<Longrightarrow>
     copy_loop src dst n = (n, if failing src then Some ReadError else None, src, dst)"
  by (subst copy_loop.simps) (simp add: file_Read_def buf_len_def Let_def)

lemma copy_loop_step_any:
  assumes "pending src \<noteq> []"
    and "Write (take buf_len (pending src)) dst = (nw, ew, dst1)"
  shows "copy_loop src dst n =
           (if ew \<noteq> None then (n + int nw, ew, src\<lparr>pending := drop buf_len (pending src)\<rparr>, dst1)
            else if length (take buf_len (pending src)) \<noteq> nw
              then (n + int nw, Some ErrShortWrite, src\<lparr>pending := drop buf_len (pending src)\<rparr>, dst1)
            else copy_loop (src\<lparr>pending := drop buf_len (pending src)\<rparr>) dst1 (n + int nw))"
proof -
  have b0: "0 < buf_len" by (simp add: buf_len_def)
  have rd: "file_Read buf_len src
              = (take buf_len (pending src), None, src\<lparr>pending := drop buf_len (pending src)\<rparr>)"
    using assms(1) b0 by (simp add: file_Read_def)
  have ne: "take buf_len (pending src) \<noteq> []" using assms(1) b0 by simp
  show ?thesis
    using ne by (subst copy_loop.simps) (simp add: Let_def rd assms(2))
qed


lemma copy_loop_healthy:
  assumes "\<not> failing src" "room dst = None"
    and "case declared dst of None \<Rightarrow> True | Some cl \<Rightarrow> written dst + length (pending src) \<le> cl"
  shows "\<exists>src' dst'. copy_loop src dst n = (n + int (length (pending src)), None, src', dst')
           \<and> body dst' = body dst @ pending src"
  using assms
proof (induction "length (pending src)" arbitrary: src dst n rule: less_induct)
  case less
  show ?case
  proof (cases "pending src = []")
    case True
    then show ?thesis using less.prems(1) by (simp add: copy_loop_eof)
  next
    case ne: False
    define data where "data = take buf_len (pending src)"
    define src1 where "src1 = src\<lparr>pending := drop buf_len (pending src)\<rparr>"
    define dst1 where "dst1 = (WriteHeader 200 dst)\<lparr>written := written dst + length data,
                                                   chunks := chunks dst @ [data]\<rparr>"
    have b0: "0 < buf_len" by (simp add: buf_len_def)
    have dne: "data \<noteq> []" using ne b0 by (simp add: data_def)
    have dl: "length data \<le> length (pending src)" by (simp add: data_def)
    have fits: "case declared dst of None \<Rightarrow> True | Some cl \<Rightarrow> written dst + length data \<le> cl"
      using less.prems(3) dl by (auto split: option.splits)
    have wr: "Write data dst = (length data, None, dst1)"
      unfolding dst1_def using less.prems(2) dne fits by (rule Write_taken)
    have step: "copy_loop src dst n = copy_loop src1 dst1 (n + int (length data))"
      using copy_loop_step_any[OF ne wr[unfolded data_def], of n]
      by (simp add: data_def src1_def)
    have smaller: "length (pending src1) < length (pending src)"
      using ne b0 by (simp add: src1_def)
    have p1: "\<not> failing src1" using less.prems(1) by (simp add: src1_def)
    have p2: "room dst1 = None" using less.prems(2) by (simp add: dst1_def)
    have sum: "length data + length (pending src1) = length (pending src)"
      by (simp add: data_def src1_def min_def)
    have p3: "case declared dst1 of None \<Rightarrow> True
              | Some cl \<Rightarrow> written dst1 + length (pending src1) \<le> cl"
      using less.prems(3) sum by (auto simp: dst1_def split: option.splits)
    from less.hyps[OF smaller p1 p2 p3, of "n + int (length data)"]
    obtain src' dst' where
      r: "copy_loop src1 dst1 (n + int (length data))
            = (n + int (length data) + int (length (pending src1)), None, src', dst')"
      and b: "body dst' = body dst1 @ pending src1"
      by blast
    have "n + int (length data) + int (length (pending src1)) = n + int (length (pending src))"
      using sum by linarith
    then have "copy_loop src dst n = (n + int (length (pending src)), None, src', dst')"
      using step r by simp
    moreover have "body dst' = body dst @ pending src"
      using b by (simp add: body_def dst1_def data_def src1_def)
    ultimately show ?thesis by blast
  qed
qed



lemma serveFileFast_range:
  "range_hdr r \<noteq> [] \<Longrightarrow>
     serveFileFast W r path fi w =
       (case os_Open W path of
          None \<Rightarrow> Some (http_Error ''cannot open file'' 500 w, [])
        | Some f \<Rightarrow> Some (serve_content W (range_hdr r) (Base path) f w, []))"
  by (simp add: serveFileFast_def)

lemma serveFileFast_unopened:
  "os_Open W path = None \<Longrightarrow>
     serveFileFast W r path fi w = Some (http_Error ''cannot open file'' 500 w, [])"
  by (simp add: serveFileFast_def)

lemma serveFileFast_full:
  assumes "range_hdr r = []" "os_Open W path = Some f"
    and "copy_loop f (full_headers W path fi w) 0 = (n, err, f1, w2)"
  shows "serveFileFast W r path fi w =
           (if err \<noteq> None then Some (w2, [])
            else (case human n of
                    None \<Rightarrow> None
                  | Some hn \<Rightarrow>
                      Some (w2, [TransferLine (Base path) hn (since_start W)
                                   (MB_per_s n (since_start W))])))"
  using assms
  by (simp add: serveFileFast_def Let_def full_headers_def content_type_def)






text \<open>
  C5. When \<open>serveFileFast\<close> returns, it has printed a transfer line exactly when the request
  had no \<open>Range\<close> header, the file opened, and the copy ended without an error; the line
  then carries the name, the size copied as \<open>human\<close> prints it, the duration and the rate.
  When the copy ends with an error, a failed write among them, nothing is printed and
  nothing more is written to the response. A request with a \<open>Range\<close> header prints
  nothing.
\<close>

theorem transfer_report_iff:
  assumes res: "serveFileFast W r path fi w = Some (w', lg)"
  shows "(lg \<noteq> [] \<longleftrightarrow>
            range_hdr r = []
            \<and> (\<exists>f n f1. os_Open W path = Some f
                   \<and> copy_loop f (full_headers W path fi w) 0 = (n, None, f1, w')))
       \<and> (\<forall>f n f1 w2. range_hdr r = [] \<and> os_Open W path = Some f
              \<and> copy_loop f (full_headers W path fi w) 0 = (n, None, f1, w2)
            \<longrightarrow> (\<exists>hn. human n = Some hn
                    \<and> lg = [TransferLine (Base path) hn (since_start W) (MB_per_s n (since_start W))]))
       \<and> (\<forall>f n e f1 w2. range_hdr r = [] \<and> os_Open W path = Some f
              \<and> copy_loop f (full_headers W path fi w) 0 = (n, Some e, f1, w2)
            \<longrightarrow> lg = [] \<and> w' = w2)
       \<and> (range_hdr r \<noteq> [] \<longrightarrow> lg = [])"
proof (cases "range_hdr r = []")
  case False
  then have "lg = []" using res by (auto simp: serveFileFast_range split: option.splits)
  then show ?thesis using False by simp
next
  case rng: True
  show ?thesis
  proof (cases "os_Open W path")
    case None
    then have "lg = []" using res by (simp add: serveFileFast_unopened)
    then show ?thesis using None rng by simp
  next
    case (Some f)
    obtain n e f1 w2 where cp: "copy_loop f (full_headers W path fi w) 0 = (n, e, f1, w2)"
      by (cases "copy_loop f (full_headers W path fi w) 0") auto
    note run = serveFileFast_full[OF rng Some cp]
    show ?thesis
    proof (cases e)
      case (Some err)
      then have "lg = []" "w' = w2" using run res by simp_all
      then show ?thesis using rng \<open>os_Open W path = Some f\<close> cp Some by simp
    next
      case None
      then obtain hn where hn: "human n = Some hn"
        and l: "lg = [TransferLine (Base path) hn (since_start W) (MB_per_s n (since_start W))]"
        and w2: "w' = w2"
        using run res by (auto split: option.splits)
      then show ?thesis using rng \<open>os_Open W path = Some f\<close> cp None by simp
    qed
  qed
qed


lemma Write_breaks:
  assumes "room w = Some k" and "k < length data"
    and "case declared w of None \<Rightarrow> True | Some cl \<Rightarrow> written w + length data \<le> cl"
  shows "Write data w = (k, Some ConnError,
           (WriteHeader 200 w)\<lparr>written := written w + length data,
                                  chunks := chunks w @ [take k data], room := Some 0\<rparr>)"
  using assms
  by (auto simp: Write_def Let_def declared_def content_length_def split: option.splits)

theorem transfer_report_iff_witness:
  "(\<exists>w'. serveFileFast demo_world \<lparr>url_path = ''/a.txt'', range_hdr = [], file_param = []\<rparr>
            ''/srv/a.txt'' (File NoFault ''abc'') (new_response None)
          = Some (w', [TransferLine ''a.txt'' ''3 B'' (1 / 1000000) (46875 / 16384)])
        \<and> (\<exists>f n f1. os_Open demo_world ''/srv/a.txt'' = Some f
              \<and> copy_loop f (full_headers demo_world ''/srv/a.txt'' (File NoFault ''abc'')
                                (new_response None)) 0 = (n, None, f1, w')))
   \<and> (\<exists>w'. serveFileFast demo_world \<lparr>url_path = ''/a.txt'', range_hdr = [], file_param = []\<rparr>
            ''/srv/a.txt'' (File NoFault ''abc'') (new_response (Some 2)) = Some (w', [])
        \<and> body w' = ''ab'')"
proof -
  let ?r = "\<lparr>url_path = ''/a.txt'', range_hdr = [], file_param = []\<rparr>"
  let ?fi = "File NoFault ''abc''"
  let ?f = "\<lparr>pending = ''abc'', failing = False\<rparr>"
  let ?w0 = "full_headers demo_world ''/srv/a.txt'' ?fi (new_response None)"
  let ?v0 = "full_headers demo_world ''/srv/a.txt'' ?fi (new_response (Some 2))"
  have rng: "range_hdr ?r = []" by simp
  have opn: "os_Open demo_world ''/srv/a.txt'' = Some ?f" by code_simp
  have d3: "sprint_d 3 = ''3''" by (simp add: sprint_d_def dec_digits.simps digit_char_def)
  have p3: "parse_dec ''3'' = Some 3" using parse_dec_sprint_d[of 3] by (simp add: d3)
  have h3: "human 3 = Some ''3 B''" by (simp add: human_def d3)
  have bs: "Base ''/srv/a.txt'' = ''a.txt''" by code_simp
  have ss: "since_start demo_world = 1 / 1000000"
    by (simp add: since_start_def Seconds_def demo_world_def)
  have mb: "MB_per_s 3 (1 / 1000000) = 46875 / 16384" by (simp add: MB_per_s_def)
  \<comment> \<open>a connection that takes every byte\<close>
  have a: "\<not> failing ?f" by simp
  have b: "room ?w0 = None" by (simp add: full_headers_def new_response_def)
  have dc: "declared ?w0 = Some 3"
    using declared_fresh[of ?w0 "''3''"] by (simp add: full_headers_def new_response_def d3 p3)
  have cnd: "case declared ?w0 of None \<Rightarrow> True | Some cl \<Rightarrow> written ?w0 + length (pending ?f) \<le> cl"
    unfolding dc by (simp add: full_headers_def new_response_def)
  from copy_loop_healthy[OF a b cnd, of 0]
  obtain src' dst' where cp: "copy_loop ?f ?w0 0 = (3, None, src', dst')" by auto
  have res: "serveFileFast demo_world ?r ''/srv/a.txt'' ?fi (new_response None)
               = Some (dst', [TransferLine ''a.txt'' ''3 B'' (1 / 1000000) (46875 / 16384)])"
    using serveFileFast_full[OF rng opn cp] by (simp add: h3 bs ss mb)
  have "[TransferLine ''a.txt'' ''3 B'' (1 / 1000000) (46875 / 16384)] \<noteq> []" by simp
  with transfer_report_iff[OF res]
  have one: "\<exists>f n f1. os_Open demo_world ''/srv/a.txt'' = Some f
               \<and> copy_loop f ?w0 0 = (n, None, f1, dst')"
    by blast
  \<comment> \<open>a connection that breaks after two bytes\<close>
  have dv: "declared ?v0 = Some 3"
    using declared_fresh[of ?v0 "''3''"] by (simp add: full_headers_def new_response_def d3 p3)
  have rm: "room ?v0 = Some 2" by (simp add: full_headers_def new_response_def)
  have lt: "2 < length ''abc''" by simp
  have cv: "case declared ?v0 of None \<Rightarrow> True | Some cl \<Rightarrow> written ?v0 + length ''abc'' \<le> cl"
    unfolding dv by (simp add: full_headers_def new_response_def)
  define v1 where "v1 = (WriteHeader 200 ?v0)\<lparr>written := written ?v0 + length ''abc'',
                          chunks := chunks ?v0 @ [take 2 ''abc''], room := Some 0\<rparr>"
  have wr: "Write ''abc'' ?v0 = (2, Some ConnError, v1)"
    unfolding v1_def using rm lt cv by (rule Write_breaks)
  have bv: "body v1 = ''ab''"
    by (simp add: v1_def body_def full_headers_def new_response_def)
  have tk: "take buf_len (pending ?f) = ''abc''" by (simp add: buf_len_def)
  have ne: "pending ?f \<noteq> []" by simp
  have wr': "Write (take buf_len (pending ?f)) ?v0 = (2, Some ConnError, v1)"
    unfolding tk by (rule wr)
  have "\<exists>f1. copy_loop ?f ?v0 0 = (2, Some ConnError, f1, v1)"
    using copy_loop_step_any[OF ne wr', of 0] by simp
  then obtain f1 where cpv: "copy_loop ?f ?v0 0 = (2, Some ConnError, f1, v1)" ..
  have rv: "serveFileFast demo_world ?r ''/srv/a.txt'' ?fi (new_response (Some 2)) = Some (v1, [])"
    using serveFileFast_full[OF rng opn cpv] by simp
  from res one rv bv show ?thesis by blast
qed

section \<open>The rate that is reported\<close>

lemma since_start_nonzero: "since_start W \<noteq> 0"
  by (simp add: since_start_def Let_def)

text \<open>
  C9. The duration that both reports divide by is never zero: a measured duration of
  zero is replaced by \<open>0.000001\<close> seconds, any other is kept. The transfer line of
  \<open>serveFileFast\<close> and the report of \<open>speedTestHandler\<close> carry that duration, and their rate
  is the bytes sent, divided by \<open>1024 * 1024\<close>, divided by it.
\<close>

theorem throughput_divisor_nonzero:
  "since_start W \<noteq> 0
   \<and> (clock W = 0 \<longrightarrow> since_start W = 1 / 1000000)
   \<and> (clock W \<noteq> 0 \<longrightarrow> since_start W = of_int (clock W) / 1000000000)
   \<and> (\<forall>w' nm hb e m. serveFileFast W r path fi w = Some (w', [TransferLine nm hb e m]) \<longrightarrow>
          e = since_start W \<and> (\<exists>n. human n = Some hb \<and> m = of_int n / (1024 * 1024) / e))
   \<and> (\<forall>target f. select_target W cfg r = Some target \<and> os_Open W target = Some f \<longrightarrow>
          (\<exists>rep. snd (speedTestHandler W cfg r v) = [JsonLine (json_marshal W rep)]
             \<and> duration_s rep = since_start W
             \<and> mb_per_s rep = of_int (bytes_sent rep) / (1024 * 1024) / duration_s rep))"
proof (intro conjI allI impI)
  show "since_start W \<noteq> 0" by (rule since_start_nonzero)
next
  assume "clock W = 0"
  then show "since_start W = 1 / 1000000" by (simp add: since_start_def Seconds_def)
next
  assume "clock W \<noteq> 0"
  then show "since_start W = of_int (clock W) / 1000000000"
    by (simp add: since_start_def Seconds_def)
next
  fix w' nm hb e m
  assume res: "serveFileFast W r path fi w = Some (w', [TransferLine nm hb e m])"
  have nz: "[TransferLine nm hb e m] \<noteq> []" by simp
  show "e = since_start W"
  proof (cases "range_hdr r = []")
    case False
    then show ?thesis using res by (auto simp: serveFileFast_range split: option.splits)
  next
    case rng: True
    show ?thesis
    proof (cases "os_Open W path")
      case None
      then show ?thesis using res by (simp add: serveFileFast_unopened)
    next
      case (Some f)
      obtain n er f1 w2 where cp: "copy_loop f (full_headers W path fi w) 0 = (n, er, f1, w2)"
        by (cases "copy_loop f (full_headers W path fi w) 0") auto
      show ?thesis
        using serveFileFast_full[OF rng Some cp] res
        by (auto split: if_splits option.splits)
    qed
  qed
  show "\<exists>n. human n = Some hb \<and> m = of_int n / (1024 * 1024) / e"
  proof (cases "range_hdr r = []")
    case False
    then show ?thesis using res by (auto simp: serveFileFast_range split: option.splits)
  next
    case rng: True
    show ?thesis
    proof (cases "os_Open W path")
      case None
      then show ?thesis using res by (simp add: serveFileFast_unopened)
    next
      case (Some f)
      obtain n er f1 w2 where cp: "copy_loop f (full_headers W path fi w) 0 = (n, er, f1, w2)"
        by (cases "copy_loop f (full_headers W path fi w) 0") auto
      show ?thesis
        using serveFileFast_full[OF rng Some cp] res
        by (auto simp: MB_per_s_def split: if_splits option.splits)
    qed
  qed
next
  fix target f
  assume a: "select_target W cfg r = Some target \<and> os_Open W target = Some f"
  obtain sent f1 w1 where t: "speed_transfer cfg f v = (sent, f1, w1)"
    by (cases "speed_transfer cfg f v") auto
  have "snd (speedTestHandler W cfg r v) = [JsonLine (json_marshal W (speed_result W target sent))]"
    using speedTestHandler_run[OF a[THEN conjunct1] a[THEN conjunct2] t] by simp
  moreover have "duration_s (speed_result W target sent) = since_start W"
    by (simp add: speed_result_def)
  moreover have "mb_per_s (speed_result W target sent)
      = of_int (bytes_sent (speed_result W target sent)) / (1024 * 1024)
          / duration_s (speed_result W target sent)"
    by (simp add: speed_result_def MB_per_s_def)
  ultimately show "\<exists>rep. snd (speedTestHandler W cfg r v) = [JsonLine (json_marshal W rep)]
             \<and> duration_s rep = since_start W
             \<and> mb_per_s rep = of_int (bytes_sent rep) / (1024 * 1024) / duration_s rep"
    by blast
qed

theorem throughput_divisor_nonzero_witness:
  "since_start demo_world = 1 / 1000000
   \<and> (\<exists>rep. snd (speedTestHandler demo_world \<lparr>dir = ''/srv'', speedBytes = 4\<rparr>
                  \<lparr>url_path = ''/speedtest'', range_hdr = [], file_param = ''b/movie.MKV''\<rparr>
                  (new_response None)) = [JsonLine (json_marshal demo_world rep)]
          \<and> duration_s rep = 1 / 1000000
          \<and> mb_per_s rep = of_int (bytes_sent rep) / (1024 * 1024) / duration_s rep)"
proof -
  let ?cfg = "\<lparr>dir = ''/srv'', speedBytes = 4\<rparr>"
  let ?r = "\<lparr>url_path = ''/speedtest'', range_hdr = [], file_param = ''b/movie.MKV''\<rparr>"
  let ?f = "\<lparr>pending = ''0123456789'', failing = False\<rparr>"
  have sel: "select_target demo_world ?cfg ?r = Some ''/srv/b/movie.MKV''" by code_simp
  have opn: "os_Open demo_world ''/srv/b/movie.MKV'' = Some ?f" by code_simp
  have c0: "clock demo_world = 0" by (simp add: demo_world_def)
  note inst = throughput_divisor_nonzero[of demo_world ?r "''/srv/a.txt''" "File NoFault ''abc''"
      "new_response None" ?cfg "new_response None"]
  have s: "since_start demo_world = 1 / 1000000"
    using inst[THEN conjunct2, THEN conjunct1] c0 by (rule mp)
  have "select_target demo_world ?cfg ?r = Some ''/srv/b/movie.MKV''
          \<and> os_Open demo_world ''/srv/b/movie.MKV'' = Some ?f"
    using sel opn by (intro conjI)
  with inst[THEN conjunct2, THEN conjunct2, THEN conjunct2, THEN conjunct2, THEN spec, THEN spec]
  have "\<exists>rep. snd (speedTestHandler demo_world ?cfg ?r (new_response None))
                 = [JsonLine (json_marshal demo_world rep)]
          \<and> duration_s rep = since_start demo_world
          \<and> mb_per_s rep = of_int (bytes_sent rep) / (1024 * 1024) / duration_s rep"
    by (rule mp)
  then show ?thesis unfolding s using s by blast
qed

section \<open>The JSON summary of the speed test\<close>

lemma speed_transfer_state:
  assumes "\<not> failing f" "status w = None" "written w = 0" "room w = None"
  shows "\<exists>f' w'. speed_transfer cfg f w = (min (budget cfg) (int (length (pending f))), f', w')
           \<and> body w' = body w @ take (nat (budget cfg)) (pending f)
           \<and> headers w' = headers (speed_headers cfg w)
           \<and> content_length (WriteHeader 200 w') = Some (nat (budget cfg))
           \<and> written w' = min (nat (budget cfg)) (length (pending f))
           \<and> room w' = None
           \<and> (pending f \<noteq> [] \<longrightarrow>
                 status w' \<noteq> None \<and> sent_headers w' = headers (speed_headers cfg w))"
proof -
  let ?w = "speed_headers cfg w"
  have a: "room ?w = None" using assms(4) by (simp add: speed_headers_def)
  have b: "declared ?w = Some (nat (budget cfg))" using assms(2) by (rule speed_headers_declared)
  have c: "written ?w + nat (budget cfg) \<le> nat (budget cfg)"
    using assms(3) by (simp add: speed_headers_def)
  have s0: "status ?w = None" using assms(2) by (simp add: speed_headers_def)
  from stream_loop_healthy[OF assms(1) a b c, of 0]
  obtain w' where
    r: "stream_loop (budget cfg) 0 f ?w =
          (0 + int (min (nat (budget cfg)) (length (pending f))),
           f\<lparr>pending := drop (nat (budget cfg)) (pending f)\<rparr>, w')"
    and bd: "body w' = body ?w @ take (nat (budget cfg)) (pending f)"
    and hd: "headers w' = headers ?w"
    and dc: "declared w' = declared ?w"
    and rm: "room w' = None"
    and wn: "written w' = written ?w + min (nat (budget cfg)) (length (pending f))"
    and sn: "status ?w \<noteq> None \<or> (0 < budget cfg \<and> pending f \<noteq> []) \<longrightarrow> status w' \<noteq> None"
    by blast
  from stream_loop_any[of "budget cfg" 0 f ?w] r
  have wr: "wrote ?w w'" by auto
  have m: "0 + int (min (nat (budget cfg)) (length (pending f)))
             = min (budget cfg) (int (length (pending f)))"
    using budget_pos[of cfg] by (auto simp: min_def)
  have t: "speed_transfer cfg f w = (min (budget cfg) (int (length (pending f))),
          f\<lparr>pending := drop (nat (budget cfg)) (pending f)\<rparr>, w')"
    unfolding speed_transfer_alt r m by (rule refl)
  have b': "body w' = body w @ take (nat (budget cfg)) (pending f)"
    using bd by (simp add: speed_headers_def)
  have cl: "content_length (WriteHeader 200 w') = Some (nat (budget cfg))"
    using dc b by (simp add: declared_def)
  have wn': "written w' = min (nat (budget cfg)) (length (pending f))"
    using wn assms(3) by (simp add: speed_headers_def)
  have st: "status w' \<noteq> None \<and> sent_headers w' = headers ?w" if "pending f \<noteq> []"
  proof -
    have s: "status w' \<noteq> None" using sn that budget_pos[of cfg] by simp
    have "sent_headers (WriteHeader 200 w') = sent_headers (WriteHeader 200 ?w)"
      using wr by (simp add: wrote_def)
    then have "sent_headers w' = headers ?w"
      using s s0 by (simp add: WriteHeader_committed WriteHeader_fresh)
    with s show ?thesis by simp
  qed
  from t b' hd cl wn' rm st show ?thesis by blast
qed

lemma Write_refused:
  assumes "status w \<noteq> None" "content_length w = Some cl" "data \<noteq> []" "cl < written w + length data"
  shows "Write data w = (0, Some ErrContentLength, w\<lparr>written := written w + length data\<rparr>)"
  using assms by (simp add: Write_def Let_def WriteHeader_committed content_length_def)

text \<open>
  What \<open>speedTestHandler\<close> sends once the loop has written a byte: the headers are fixed, so
  the \<open>Content-Type\<close> stays \<open>application/octet-stream\<close> whatever the handler stores in the map
  afterwards; and when the file held the whole budget, the JSON text would pass the
  \<open>Content-Length\<close> sent and is refused, so the body is the streamed bytes alone.
\<close>

lemma speedtest_after_streaming:
  assumes sel: "select_target W cfg r = Some target"
    and opn: "os_Open W target = Some f"
    and ok: "\<not> failing f" "status w = None" "written w = 0" "room w = None"
    and ne: "pending f \<noteq> []"
  shows "sent_headers (fst (speedTestHandler W cfg r w)) ''Content-Type''
           = Some ''application/octet-stream''"
    and "headers (fst (speedTestHandler W cfg r w)) ''Content-Type'' = Some ''application/json''"
    and "budget cfg \<le> int (length (pending f)) \<Longrightarrow>
         json_marshal W (speed_result W target (budget cfg)) \<noteq> [] \<Longrightarrow>
           body (fst (speedTestHandler W cfg r w)) = body w @ take (nat (budget cfg)) (pending f)"
    and "snd (speedTestHandler W cfg r w) =
           [JsonLine (json_marshal W
              (speed_result W target (min (budget cfg) (int (length (pending f))))))]"
proof -
  let ?sent = "min (budget cfg) (int (length (pending f)))"
  let ?js = "json_marshal W (speed_result W target ?sent)"
  from speed_transfer_state[OF ok, of cfg]
  obtain f' w' where
    t: "speed_transfer cfg f w = (?sent, f', w')"
    and bd: "body w' = body w @ take (nat (budget cfg)) (pending f)"
    and cl: "content_length (WriteHeader 200 w') = Some (nat (budget cfg))"
    and wn: "written w' = min (nat (budget cfg)) (length (pending f))"
    and st: "status w' \<noteq> None" "sent_headers w' = headers (speed_headers cfg w)"
    using ne by blast
  let ?x = "Header_Set ''Content-Type'' ''application/json'' w'"
  have run: "speedTestHandler W cfg r w = (Fprint ?js ?x, [JsonLine ?js])"
    using speedTestHandler_run[OF sel opn t] .
  show "snd (speedTestHandler W cfg r w) = [JsonLine ?js]" by (simp add: run)
  have sx: "status ?x \<noteq> None" using st(1) by simp
  have "sent_headers (Fprint ?js ?x) = sent_headers ?x"
    using sx by (simp add: Fprint_commits WriteHeader_committed)
  then show "sent_headers (fst (speedTestHandler W cfg r w)) ''Content-Type''
           = Some ''application/octet-stream''"
    by (simp add: run st(2) speed_headers_def)
  obtain nw ew x1 where wr: "Write ?js ?x = (nw, ew, x1)" by (rule Write_cases)
  have "headers x1 = headers ?x"
    using wr by (auto simp: Write_def Let_def split: if_splits option.splits)
  then show "headers (fst (speedTestHandler W cfg r w)) ''Content-Type'' = Some ''application/json''"
    by (simp add: run Fprint_def wr)
  show "body (fst (speedTestHandler W cfg r w)) = body w @ take (nat (budget cfg)) (pending f)"
    if big: "budget cfg \<le> int (length (pending f))"
      and js: "json_marshal W (speed_result W target (budget cfg)) \<noteq> []"
  proof -
    have se: "?sent = budget cfg" using big by simp
    have jn: "?js \<noteq> []" using js se by simp
    have clx: "content_length ?x = Some (nat (budget cfg))"
      using cl st(1) by (simp add: WriteHeader_committed content_length_def)
    have wx: "written ?x = nat (budget cfg)" using wn big by simp
    have "nat (budget cfg) < written ?x + length ?js" using wx jn by simp
    from Write_refused[OF sx clx jn this]
    have "body (Fprint ?js ?x) = body w'" by (simp add: Fprint_def body_def)
    then show ?thesis by (simp add: run bd)
  qed
qed

text \<open>
  C6, at a concrete run: budget 4, source \<open>/srv/b/movie.MKV\<close> of ten bytes. The JSON line
  is logged, but the response is four raw bytes of type \<open>application/octet-stream\<close>; the
  JSON text is not in its body, and \<open>application/json\<close> is only in the map the handler
  edited after the headers had gone.
\<close>

theorem speedtest_json_not_delivered:
  "snd (speedTestHandler demo_world \<lparr>dir = ''/srv'', speedBytes = 4\<rparr>
          \<lparr>url_path = ''/speedtest'', range_hdr = [], file_param = ''b/movie.MKV''\<rparr>
          (new_response None)) = [JsonLine ''{bytes_sent:4}'']
   \<and> body (fst (speedTestHandler demo_world \<lparr>dir = ''/srv'', speedBytes = 4\<rparr>
          \<lparr>url_path = ''/speedtest'', range_hdr = [], file_param = ''b/movie.MKV''\<rparr>
          (new_response None))) = ''0123''
   \<and> sent_headers (fst (speedTestHandler demo_world \<lparr>dir = ''/srv'', speedBytes = 4\<rparr>
          \<lparr>url_path = ''/speedtest'', range_hdr = [], file_param = ''b/movie.MKV''\<rparr>
          (new_response None))) ''Content-Type'' = Some ''application/octet-stream''
   \<and> headers (fst (speedTestHandler demo_world \<lparr>dir = ''/srv'', speedBytes = 4\<rparr>
          \<lparr>url_path = ''/speedtest'', range_hdr = [], file_param = ''b/movie.MKV''\<rparr>
          (new_response None))) ''Content-Type'' = Some ''application/json''"
proof -
  let ?cfg = "\<lparr>dir = ''/srv'', speedBytes = 4\<rparr>"
  let ?r = "\<lparr>url_path = ''/speedtest'', range_hdr = [], file_param = ''b/movie.MKV''\<rparr>"
  let ?f = "\<lparr>pending = ''0123456789'', failing = False\<rparr>"
  have sel: "select_target demo_world ?cfg ?r = Some ''/srv/b/movie.MKV''" by code_simp
  have opn: "os_Open demo_world ''/srv/b/movie.MKV'' = Some ?f" by code_simp
  have ok: "\<not> failing ?f" "status (new_response None) = None"
    "written (new_response None) = 0" "room (new_response None) = None"
    by (simp_all add: new_response_def)
  have ne: "pending ?f \<noteq> []" by simp
  have b: "budget ?cfg = 4" by (simp add: budget_def)
  have d4: "sprint_d 4 = ''4''" by (simp add: sprint_d_def dec_digits.simps digit_char_def)
  have js: "json_marshal demo_world (speed_result demo_world ''/srv/b/movie.MKV'' 4) = ''{bytes_sent:4}''"
    by (simp add: demo_world_def speed_result_def d4)
  have big: "budget ?cfg \<le> int (length (pending ?f))" by (simp add: b)
  have jn: "json_marshal demo_world (speed_result demo_world ''/srv/b/movie.MKV'' (budget ?cfg)) \<noteq> []"
    unfolding b js by simp
  note facts = speedtest_after_streaming[OF sel opn ok ne]
  have l: "snd (speedTestHandler demo_world ?cfg ?r (new_response None)) = [JsonLine ''{bytes_sent:4}'']"
    using facts(4) by (simp add: b js)
  have bd: "body (fst (speedTestHandler demo_world ?cfg ?r (new_response None))) = ''0123''"
    using facts(3)[OF big jn] by (simp add: b new_response_def body_def)
  from l bd facts(1) facts(2) show ?thesis by (intro conjI)
qed

section \<open>The source of the speed test\<close>


lemma media_fn_dir [simp]: "media_fn p (Some (Dir f sz es)) e s = (s, None)"
  by (simp add: media_fn_def)

lemma media_fn_file [simp]:
  "media_fn p (Some (File f c)) False s = (if is_media p then (p, Some EOF) else (s, None))"
  by (simp add: media_fn_def)


















section \<open>The directory listing\<close>
















end
